theory Spec2Isabelle
  imports Main "HOL-Library.Sublist"
begin

section \<open>Go strings\<close>

text \<open>
  A Go string is a sequence of bytes, and so is an Isabelle \<open>string\<close> (a list of 8-bit
  characters). \<open>len(s)\<close> is \<open>length s\<close>, \<open>s[a:b]\<close> is \<open>take (b - a) (drop a s)\<close>.
  The functions of the Go standard library that the filters call are written out below
  on bytes; where the library works on runes the UTF-8 decoding is written out too.
\<close>

definition byte :: "char \<Rightarrow> nat" where
  "byte c = of_char c"

definition newline :: char where
  "newline = CHR 0x0A"

text \<open>The six ASCII bytes that \<open>strings.TrimSpace\<close>, \<open>unicode.IsSpace\<close> and the regular
  expression class \<open>[[:space:]]\<close> treat as white space: tab, line feed, vertical tab,
  form feed, carriage return and space.\<close>

definition asciiSpace :: "char \<Rightarrow> bool" where
  "asciiSpace c = (byte c = 0x09 \<or> byte c = 0x0A \<or> byte c = 0x0B \<or> byte c = 0x0C
                   \<or> byte c = 0x0D \<or> byte c = 0x20)"

definition continuation :: "nat \<Rightarrow> nat \<Rightarrow> char \<Rightarrow> bool" where
  "continuation lo hi c = (lo \<le> byte c \<and> byte c \<le> hi)"

text \<open>
  \<open>utf8.DecodeRuneInString\<close>, its width: the number of bytes the first rune of the string
  takes. An ASCII byte is one rune; a lead byte \<open>C2..DF\<close>, \<open>E0..EF\<close>, \<open>F0..F4\<close> followed by
  the continuation bytes its accept range asks for is a rune of 2, 3 or 4 bytes; every
  other byte (a stray continuation byte, \<open>C0\<close>, \<open>C1\<close>, \<open>F5..FF\<close>, a truncated or
  out-of-range sequence) decodes as \<open>RuneError\<close> of width 1.
\<close>

definition DecodeRuneWidth :: "string \<Rightarrow> nat" where
  "DecodeRuneWidth s = (case s of [] \<Rightarrow> 0 | c # cs \<Rightarrow>
     (let b = byte c in
      if b < 0xC2 then 1
      else if b \<le> 0xDF then
        (case cs of b1 # _ \<Rightarrow> if continuation 0x80 0xBF b1 then 2 else 1 | _ \<Rightarrow> 1)
      else if b \<le> 0xEF then
        (case cs of
           b1 # b2 # _ \<Rightarrow>
             if continuation (if b = 0xE0 then 0xA0 else 0x80) (if b = 0xED then 0x9F else 0xBF) b1
                \<and> continuation 0x80 0xBF b2
             then 3 else 1
         | _ \<Rightarrow> 1)
      else if b \<le> 0xF4 then
        (case cs of
           b1 # b2 # b3 # _ \<Rightarrow>
             if continuation (if b = 0xF0 then 0x90 else 0x80) (if b = 0xF4 then 0x8F else 0xBF) b1
                \<and> continuation 0x80 0xBF b2 \<and> continuation 0x80 0xBF b3
             then 4 else 1
         | _ \<Rightarrow> 1)
      else 1))"

text \<open>The runes of a string as \<open>for _, r := range s\<close> visits them, each as its bytes.\<close>

fun runes :: "string \<Rightarrow> string list" where
  "runes [] = []"
| "runes (c # cs) =
     (c # take (DecodeRuneWidth (c # cs) - 1) cs) # runes (drop (DecodeRuneWidth (c # cs) - 1) cs)"

text \<open>
  The UTF-8 encodings of the code points for which \<open>unicode.IsSpace\<close> holds: the six
  ASCII ones, U+0085, U+00A0, U+1680, U+2000..U+200A, U+2028, U+2029, U+202F, U+205F and
  U+3000. The decoder accepts shortest encodings only, so the first rune of a string is
  white space exactly when the string begins with one of these, and the last rune, as
  \<open>utf8.DecodeLastRuneInString\<close> finds it, exactly when the string ends with one.
\<close>

definition spaceRunes :: "string list" where
  "spaceRunes =
     [[CHR 0x09], [CHR 0x0A], [CHR 0x0B], [CHR 0x0C], [CHR 0x0D], [CHR 0x20],
      [CHR 0xC2, CHR 0x85], [CHR 0xC2, CHR 0xA0],
      [CHR 0xE1, CHR 0x9A, CHR 0x80],
      [CHR 0xE2, CHR 0x80, CHR 0x80], [CHR 0xE2, CHR 0x80, CHR 0x81],
      [CHR 0xE2, CHR 0x80, CHR 0x82], [CHR 0xE2, CHR 0x80, CHR 0x83],
      [CHR 0xE2, CHR 0x80, CHR 0x84], [CHR 0xE2, CHR 0x80, CHR 0x85],
      [CHR 0xE2, CHR 0x80, CHR 0x86], [CHR 0xE2, CHR 0x80, CHR 0x87],
      [CHR 0xE2, CHR 0x80, CHR 0x88], [CHR 0xE2, CHR 0x80, CHR 0x89],
      [CHR 0xE2, CHR 0x80, CHR 0x8A],
      [CHR 0xE2, CHR 0x80, CHR 0xA8], [CHR 0xE2, CHR 0x80, CHR 0xA9],
      [CHR 0xE2, CHR 0x80, CHR 0xAF],
      [CHR 0xE2, CHR 0x81, CHR 0x9F],
      [CHR 0xE3, CHR 0x80, CHR 0x80]]"

text \<open>Dropping from the front of a string, for as long as it begins with one of the given
  byte sequences, that sequence.\<close>

fun trimLeftBy :: "string list \<Rightarrow> string \<Rightarrow> string" where
  "trimLeftBy ps [] = []"
| "trimLeftBy ps (c # cs) =
     (case find (\<lambda>p. prefix p (c # cs)) ps of
        None \<Rightarrow> c # cs
      | Some p \<Rightarrow> trimLeftBy ps (drop (length p - 1) cs))"

text \<open>\<open>strings.TrimLeftFunc(s, unicode.IsSpace)\<close> drops white space runes from the front
  for as long as there is one, \<open>strings.TrimRightFunc(s, unicode.IsSpace)\<close> from the end:
  a string ends with an encoding when its reverse begins with the reversed encoding.\<close>

definition TrimLeftSpace :: "string \<Rightarrow> string" where
  "TrimLeftSpace s = trimLeftBy spaceRunes s"

definition TrimRightSpace :: "string \<Rightarrow> string" where
  "TrimRightSpace s = rev (trimLeftBy (map rev spaceRunes) (rev s))"

text \<open>\<open>strings.TrimSpace\<close>: its ASCII fast path and its fall-back both compute
  \<open>TrimRightFunc(TrimLeftFunc(s, unicode.IsSpace), unicode.IsSpace)\<close>.\<close>

definition TrimSpace :: "string \<Rightarrow> string" where
  "TrimSpace s = TrimRightSpace (TrimLeftSpace s)"

text \<open>\<open>strings.HasPrefix\<close> and \<open>strings.TrimPrefix\<close>.\<close>

definition HasPrefix :: "string \<Rightarrow> string \<Rightarrow> bool" where
  "HasPrefix s p = (length p \<le> length s \<and> take (length p) s = p)"

text \<open>\<open>strings.Split(s, sep)\<close> for a separator of one byte (the source only splits on
  \<open>"\n"\<close>): the pieces between the separators, one piece more than there are separators.\<close>

fun Split :: "string \<Rightarrow> char \<Rightarrow> string list" where
  "Split [] sep = [[]]"
| "Split (c # cs) sep =
     (if c = sep then [] # Split cs sep
      else (case Split cs sep of [] \<Rightarrow> [[c]] | l # ls \<Rightarrow> (c # l) # ls))"

text \<open>
  \<open>strings.Replace(s, old, new, -1)\<close>. Nothing changes when \<open>old == new\<close>. For an empty
  \<open>old\<close> the new text goes in front of the string and after each of its runes. Otherwise
  the occurrences of \<open>old\<close> are replaced from left to right without overlap:
  \<open>replaceFrom old new k s\<close> has \<open>k\<close> bytes of a matched occurrence still to skip.
\<close>

fun replaceFrom :: "string \<Rightarrow> string \<Rightarrow> nat \<Rightarrow> string \<Rightarrow> string" where
  "replaceFrom old new k [] = []"
| "replaceFrom old new (Suc k) (c # cs) = replaceFrom old new k cs"
| "replaceFrom old new 0 (c # cs) =
     (if HasPrefix (c # cs) old then new @ replaceFrom old new (length old - 1) cs
      else c # replaceFrom old new 0 cs)"

definition Replace :: "string \<Rightarrow> string \<Rightarrow> string \<Rightarrow> string" where
  "Replace s old new =
     (if old = new then s
      else if old = [] then new @ concat (map (\<lambda>r. r @ new) (runes s))
      else replaceFrom old new 0 s)"

section \<open>Commands, results and errors\<close>

text \<open>
  The error values of the packages: the four sentinels declared in the source, and
  \<open>errors.New(text)\<close> for every other error. \<open>Error_text\<close> is the method \<open>Error()\<close>.
\<close>

datatype error =
    ErrPINAndShortcutNotFound
  | ErrBadPrefix
  | ErrBadPLT
  | ErrRateLimitExceeded
  | errors_New string

fun Error_text :: "error \<Rightarrow> string" where
  "Error_text ErrPINAndShortcutNotFound = ''failed to match PIN/shortcut''"
| "Error_text ErrBadPrefix = ''bad prefix or feature is not configured''"
| "Error_text ErrBadPLT = ''.plt P L T command''"
| "Error_text ErrRateLimitExceeded = ''command processor internal rate limit has been exceeded''"
| "Error_text (errors_New t) = t"

text \<open>Modelled from the spec: \<open>toolbox.Command\<close> and \<open>toolbox.Result\<close> are declared outside
  the source files at hand; the spec's data model gives a Command the fields Content,
  TimeoutSec and DaemonName, and a Result the fields Command, Output, Error and
  CombinedOutput.\<close>

record Command =
  DaemonName :: string
  TimeoutSec :: int
  Content :: string

record Result =
  Command :: Command
  Error :: "error option"
  Output :: string
  CombinedOutput :: string

text \<open>The zero values \<open>toolbox.Command{}\<close> and \<open>toolbox.Result{}\<close>.\<close>

definition Command_zero :: Command where
  "Command_zero = \<lparr>DaemonName = [], TimeoutSec = 0, Content = []\<rparr>"

definition Result_zero :: Result where
  "Result_zero = \<lparr>Command = Command_zero, Error = None, Output = [], CombinedOutput = []\<rparr>"

text \<open>Modelled from the spec: \<open>Command.Lines()\<close> is not in the source files; the spec has it
  yield the content split by line terminators.\<close>

definition Lines :: "Command \<Rightarrow> string list" where
  "Lines cmd = Split (Content cmd) newline"

section \<open>Command filters\<close>

record PINAndShortcuts =
  PIN :: string
  Shortcuts :: "(string \<times> string) list"

text \<open>\<open>subtle.ConstantTimeCompare\<close> returns 1 when the two byte slices are equal and 0
  otherwise.\<close>

definition ConstantTimeCompare :: "string \<Rightarrow> string \<Rightarrow> int" where
  "ConstantTimeCompare x y = (if x = y then 1 else 0)"

text \<open>The map \<open>Shortcuts\<close> is the list of its key/value pairs, each key once, read with
  \<open>map_of\<close>; a nil map and an empty map are both \<open>[]\<close>: a lookup finds nothing in
  either. The loop of \<open>PINAndShortcuts.Transform\<close> over the lines of the command:\<close>

fun matchLines :: "PINAndShortcuts \<Rightarrow> Command \<Rightarrow> string list \<Rightarrow> Command \<times> error option" where
  "matchLines pin cmd [] = (cmd, Some ErrPINAndShortcutNotFound)"
| "matchLines pin cmd (l # ls) =
     (let line = TrimSpace l in
      case map_of (Shortcuts pin) line of
        Some shortcut \<Rightarrow> (cmd\<lparr>Content := shortcut\<rparr>, None)
      | None \<Rightarrow>
          if length line > length (PIN pin)
             \<and> ConstantTimeCompare (take (length (PIN pin)) line) (PIN pin) = 1
          then (cmd\<lparr>Content := drop (length (PIN pin)) line\<rparr>, None)
          else matchLines pin cmd ls)"

definition PINAndShortcuts_Transform :: "PINAndShortcuts \<Rightarrow> Command \<Rightarrow> Command \<times> error option" where
  "PINAndShortcuts_Transform pin cmd =
     (if PIN pin = [] \<and> Shortcuts pin = []
      then (Command_zero, Some (errors_New ''both PIN and shortcuts are undefined''))
      else matchLines pin cmd (Lines cmd))"

record TranslateSequences =
  Sequences :: "string list list"

fun translate :: "string list list \<Rightarrow> string \<Rightarrow> string" where
  "translate [] newContent = newContent"
| "translate (tuple # rest) newContent =
     (case tuple of
        [old, new] \<Rightarrow> translate rest (Replace newContent old new)
      | _ \<Rightarrow> translate rest newContent)"

text \<open>A nil \<open>Sequences\<close> is the empty list: the early return and the loop over no tuple
  both hand the command back as it came.\<close>

definition TranslateSequences_Transform :: "TranslateSequences \<Rightarrow> Command \<Rightarrow> Command \<times> error option" where
  "TranslateSequences_Transform tr cmd =
     (if Sequences tr = [] then (cmd, None)
      else (cmd\<lparr>Content := translate (Sequences tr) (Content cmd)\<rparr>, None))"

section \<open>Result filters\<close>

record LintText =
  TrimSpaces :: bool
  CompressToSingleLine :: bool
  KeepVisible7BitCharOnly :: bool
  CompressSpaces :: bool
  BeginPosition :: int
  MaxLength :: int

text \<open>Step 1 of \<open>LintText.Transform\<close>: every line trimmed and written back with a line
  feed behind it, the whole trimmed again.\<close>

definition trimLines :: "string \<Rightarrow> string" where
  "trimLines ret =
     TrimSpace (concat (map (\<lambda>line. TrimSpace line @ [newline]) (Split ret newline)))"

text \<open>Step 3: a rune below 128 that \<open>unicode.IsPrint\<close> (\<open>0x20..0x7E\<close>) or
  \<open>unicode.IsSpace\<close> accepts is kept, every other rune (a rune of several bytes, an
  invalid byte, a control character) becomes one question mark.\<close>

definition visible7Bit :: "string \<Rightarrow> char" where
  "visible7Bit r =
     (case r of
        [c] \<Rightarrow> if byte c < 128 \<and> (0x20 \<le> byte c \<and> byte c \<le> 0x7E \<or> asciiSpace c)
               then c else CHR ''?''
      | _ \<Rightarrow> CHR ''?'')"

definition keepVisible7Bit :: "string \<Rightarrow> string" where
  "keepVisible7Bit ret = map visible7Bit (runes ret)"

text \<open>Step 4: \<open>RegexConsecutiveSpaces.ReplaceAllString(ret, " ")\<close>, the regular expression
  being \<open>[[:space:]]+\<close>: every maximal run of ASCII white space becomes one space, the
  other bytes are copied.\<close>

function compressSpaces :: "string \<Rightarrow> string" where
  "compressSpaces [] = []"
| "compressSpaces (c # cs) =
     (if asciiSpace c then CHR '' '' # compressSpaces (dropWhile asciiSpace cs)
      else c # compressSpaces cs)"
  by pat_completeness auto
termination
  by (relation "measure length") (auto simp: le_imp_less_Suc length_dropWhile_le)

text \<open>Steps 5 and 6, on bytes.\<close>

definition cutLeading :: "int \<Rightarrow> string \<Rightarrow> string" where
  "cutLeading beginPosition ret =
     (if beginPosition > 0
      then (if int (length ret) > beginPosition then drop (nat beginPosition) ret else [])
      else ret)"

definition cutTrailing :: "int \<Rightarrow> string \<Rightarrow> string" where
  "cutTrailing maxLength ret =
     (if maxLength > 0 \<and> int (length ret) > maxLength then take (nat maxLength) ret else ret)"

definition lintText :: "LintText \<Rightarrow> string \<Rightarrow> string" where
  "lintText lint ret0 =
     (let ret1 = (if TrimSpaces lint then trimLines ret0 else ret0);
          ret2 = (if CompressToSingleLine lint then Replace ret1 [newline] '';'' else ret1);
          ret3 = (if KeepVisible7BitCharOnly lint then keepVisible7Bit ret2 else ret2);
          ret4 = (if CompressSpaces lint then compressSpaces ret3 else ret3);
          ret5 = cutLeading (BeginPosition lint) ret4
      in cutTrailing (MaxLength lint) ret5)"

definition LintText_Transform :: "LintText \<Rightarrow> Result \<Rightarrow> Result \<times> error option" where
  "LintText_Transform lint result =
     (result\<lparr>CombinedOutput := lintText lint (CombinedOutput result)\<rparr>, None)"

text \<open>\<open>NotifyViaEmail\<close>: of the mail client only whether it is configured matters to the
  filter. The mail goes out on a goroutine of its own; \<open>NotifyViaEmail_sends\<close> tells
  whether one is started. The result is left as it is.\<close>

record NotifyViaEmail =
  Recipients :: "string list"
  MailClient_IsConfigured :: bool

definition NotifyViaEmail_IsConfigured :: "NotifyViaEmail \<Rightarrow> bool" where
  "NotifyViaEmail_IsConfigured notify = (Recipients notify \<noteq> [] \<and> MailClient_IsConfigured notify)"

definition NotifyViaEmail_sends :: "NotifyViaEmail \<Rightarrow> Result \<Rightarrow> bool" where
  "NotifyViaEmail_sends notify result =
     (NotifyViaEmail_IsConfigured notify \<and> Error result \<noteq> Some ErrPINAndShortcutNotFound)"

definition NotifyViaEmail_Transform :: "NotifyViaEmail \<Rightarrow> Result \<Rightarrow> Result \<times> error option" where
  "NotifyViaEmail_Transform notify result = (result, None)"

text \<open>\<open>SayEmptyOutput\<close>: \<open>[[:graph:]]\<close> matches the visible ASCII characters
  \<open>0x21..0x7E\<close>.\<close>

definition EmptyOutputText :: string where
  "EmptyOutputText = ''EMPTY OUTPUT''"

definition SayEmptyOutput_Transform :: "Result \<Rightarrow> Result \<times> error option" where
  "SayEmptyOutput_Transform result =
     (if list_ex (\<lambda>c. 0x21 \<le> byte c \<and> byte c \<le> 0x7E) (CombinedOutput result)
      then (result, None)
      else (result\<lparr>CombinedOutput := EmptyOutputText\<rparr>, None))"

text \<open>
  The two filter interfaces. A value of interface type is one of the implementations of
  the package, which \<open>Process\<close> and \<open>IsEmpty\<close> tell apart by type assertion, or any other
  implementation of \<open>Transform\<close>. A result filter works on the result in place: the
  model returns the result as the filter leaves it, and the error.
\<close>

datatype CommandFilter =
    PINAndShortcutsFilter PINAndShortcuts
  | TranslateSequencesFilter TranslateSequences
  | OtherCommandFilter "Command \<Rightarrow> Command \<times> error option"

fun CommandFilter_Transform :: "CommandFilter \<Rightarrow> Command \<Rightarrow> Command \<times> error option" where
  "CommandFilter_Transform (PINAndShortcutsFilter pin) cmd = PINAndShortcuts_Transform pin cmd"
| "CommandFilter_Transform (TranslateSequencesFilter tr) cmd = TranslateSequences_Transform tr cmd"
| "CommandFilter_Transform (OtherCommandFilter f) cmd = f cmd"

datatype ResultFilter =
    LintTextFilter LintText
  | NotifyViaEmailFilter NotifyViaEmail
  | SayEmptyOutputFilter
  | OtherResultFilter "Result \<Rightarrow> Result \<times> error option"

fun ResultFilter_Transform :: "ResultFilter \<Rightarrow> Result \<Rightarrow> Result \<times> error option" where
  "ResultFilter_Transform (LintTextFilter lint) result = LintText_Transform lint result"
| "ResultFilter_Transform (NotifyViaEmailFilter notify) result = NotifyViaEmail_Transform notify result"
| "ResultFilter_Transform SayEmptyOutputFilter result = SayEmptyOutput_Transform result"
| "ResultFilter_Transform (OtherResultFilter f) result = f result"

section \<open>The command processor\<close>

text \<open>
  What \<open>Process\<close> reads from the packages \<open>misc\<close> and \<open>toolbox\<close>, which are not among the
  source files: the global lock-down flag and its error, the error of \<open>Command.Trim\<close>, and
  the triggers of the two features whose commands are kept out of the log. They are
  parameters of the model.
\<close>

record Imports =
  EmergencyLockDown :: bool
  ErrEmergencyLockDown :: error
  ErrEmptyCommand :: error
  AESDecryptTrigger :: string
  TwoFATrigger :: string

text \<open>Modelled from the spec: \<open>Command.Trim()\<close> is not in the source files; the spec has it
  return a Result with a validation error if the content is empty after trimming, else
  nil. The content is left trimmed.\<close>

definition Command_Trim :: "Imports \<Rightarrow> Command \<Rightarrow> Command \<times> Result option" where
  "Command_Trim imp cmd =
     (let trimmed = cmd\<lparr>Content := TrimSpace (Content cmd)\<rparr>
      in (trimmed,
          if Content trimmed = [] then Some (Result_zero\<lparr>Error := Some (ErrEmptyCommand imp)\<rparr>)
          else None))"

text \<open>Modelled from the spec: \<open>Command.FindAndRemovePrefix(p)\<close> is not in the source files;
  the spec has it return whether \<open>p\<close> occurs as a prefix (after trim) and, if so, strip
  it.\<close>

definition FindAndRemovePrefix :: "Command \<Rightarrow> string \<Rightarrow> bool \<times> Command" where
  "FindAndRemovePrefix cmd p =
     (let trimmedOriginal = TrimSpace (Content cmd)
      in if HasPrefix trimmedOriginal p
         then (True, cmd\<lparr>Content := drop (length p) trimmedOriginal\<rparr>)
         else (False, cmd))"

text \<open>Modelled from the spec: \<open>Result.ResetCombinedText()\<close> is not in the source files; the
  spec has it recompute the combined output as \<open>"Error|Output"\<close> when an error is present,
  else as the output.\<close>

definition ResetCombinedText :: "Result \<Rightarrow> Result" where
  "ResetCombinedText result =
     result\<lparr>CombinedOutput :=
       (case Error result of
          Some e \<Rightarrow> Error_text e @ ''|'' @ Output result
        | None \<Rightarrow> Output result)\<rparr>"

text \<open>Modelled from the spec: \<open>toolbox.Feature\<close> and \<open>toolbox.FeatureSet\<close> are not in the
  source files; the spec has \<open>Execute(Command)\<close> yield a Result and \<open>LookupByTrigger\<close> map a
  trigger to its feature. The map is the list of its entries in the order in which the
  \<open>range\<close> loop of \<open>Process\<close> visits them; Go fixes no order, so every order is a possible
  run.\<close>

record Feature =
  Execute :: "Command \<Rightarrow> Result"

record FeatureSet =
  LookupByTrigger :: "(string \<times> Feature) list"

text \<open>Modelled from the spec: \<open>misc.RateLimit\<close> is not in the source files; the spec gives
  it the parameters UnitSecs and MaxCount and a counter per key, and has \<open>Add\<close> tell whether
  the event is admitted. The reset of the counters every UnitSecs seconds is the
  limiter's own ticker and no part of a call of \<open>Process\<close>.\<close>

record RateLimit =
  UnitSecs :: int
  MaxCount :: int
  counter :: "string \<Rightarrow> int"

definition RateLimit_Initialise :: "RateLimit \<Rightarrow> RateLimit" where
  "RateLimit_Initialise limit = limit\<lparr>counter := (\<lambda>key. 0)\<rparr>"

definition RateLimit_Add :: "RateLimit \<Rightarrow> string \<Rightarrow> bool \<times> RateLimit" where
  "RateLimit_Add limit key =
     (if counter limit key \<ge> MaxCount limit then (False, limit)
      else (True, limit\<lparr>counter := (counter limit)(key := counter limit key + 1)\<rparr>))"

text \<open>The processor. \<open>Features\<close> and \<open>rateLimit\<close> are pointers, nil being \<open>None\<close>;
  \<open>initOnce\<close> is the \<open>sync.Once\<close>, true once its function has run.\<close>

record CommandProcessor =
  Features :: "FeatureSet option"
  CommandFilters :: "CommandFilter list"
  ResultFilters :: "ResultFilter list"
  MaxCmdPerSec :: int
  rateLimit :: "RateLimit option"
  initOnce :: bool

definition PrefixCommandPLT :: string where
  "PrefixCommandPLT = ''.plt''"

definition MaxCmdPerSecHardLimit :: int where
  "MaxCmdPerSecHardLimit = 1000"

definition initialiseOnce :: "CommandProcessor \<Rightarrow> CommandProcessor" where
  "initialiseOnce proc =
     (if initOnce proc then proc
      else
        let proc1 = (if MaxCmdPerSec proc < 1 \<or> MaxCmdPerSec proc > MaxCmdPerSecHardLimit
                     then proc\<lparr>MaxCmdPerSec := MaxCmdPerSecHardLimit\<rparr> else proc);
            proc2 = (case rateLimit proc1 of
                       None \<Rightarrow>
                         proc1\<lparr>rateLimit := Some (RateLimit_Initialise
                           \<lparr>UnitSecs = 1, MaxCount = MaxCmdPerSec proc1, counter = (\<lambda>key. 0)\<rparr>)\<rparr>
                     | Some limit \<Rightarrow> proc1)
        in proc2\<lparr>initOnce := True\<rparr>)"

text \<open>
  \<open>RegexCommandWithPLT.FindStringSubmatch\<close> for the regular expression
  \<open>[^\d]*(\d+)[^\d]+(\d+)[^\d]*(\d+)(.*)\<close>, under Go's leftmost-first matching: no match
  is \<open>[]\<close>, a match is the whole match and the four groups. A match, if there is one,
  begins at the first byte. The first group is the first run of digits and the second
  group begins with the second run. When a third run of digits follows, the second group
  is the whole second run and the third group the whole third run; when none follows, the
  greedy second group gives up its last digit to the third group (so \<open>"1 23"\<close> is 1, 2
  and 3). The last group runs to the end of the line (\<open>.\<close> does not match a line feed).
\<close>

definition isDigit :: "char \<Rightarrow> bool" where
  "isDigit c = (0x30 \<le> byte c \<and> byte c \<le> 0x39)"

definition FindStringSubmatch :: "string \<Rightarrow> string list" where
  "FindStringSubmatch s =
     (let notDigit = (\<lambda>c. \<not> isDigit c);
          n0 = takeWhile notDigit s;   s1 = dropWhile notDigit s;
          d1 = takeWhile isDigit s1;   s2 = dropWhile isDigit s1;
          n1 = takeWhile notDigit s2;  s3 = dropWhile notDigit s2;
          d2 = takeWhile isDigit s3;   s4 = dropWhile isDigit s3;
          n2 = takeWhile notDigit s4;  s5 = dropWhile notDigit s4;
          d3 = takeWhile isDigit s5;   s6 = dropWhile isDigit s5
      in if d1 = [] \<or> n1 = [] \<or> d2 = [] then []
         else if d3 \<noteq> [] then
           (let rest = takeWhile (\<lambda>c. c \<noteq> newline) s6
            in [n0 @ d1 @ n1 @ d2 @ n2 @ d3 @ rest, d1, d2, d3, rest])
         else if length d2 \<ge> 2 then
           (let rest = takeWhile (\<lambda>c. c \<noteq> newline) s4
            in [n0 @ d1 @ n1 @ d2 @ rest, d1, butlast d2, [last d2], rest])
         else [])"

text \<open>\<open>strconv.Atoi\<close> with a 64-bit \<open>int\<close>: an optional sign and decimal digits. The
  value is 0 with an error when the text is no number, and the nearest bound with an
  error when the number is out of range.\<close>

fun digitsValue :: "int \<Rightarrow> string \<Rightarrow> int" where
  "digitsValue acc [] = acc"
| "digitsValue acc (c # cs) = digitsValue (10 * acc + (int (byte c) - 0x30)) cs"

definition Atoi :: "string \<Rightarrow> int \<times> error option" where
  "Atoi s =
     (let negative = (s \<noteq> [] \<and> hd s = CHR ''-'');
          digits = (if s \<noteq> [] \<and> (hd s = CHR ''-'' \<or> hd s = CHR ''+'') then tl s else s);
          failure = (\<lambda>why. Some (errors_New (''strconv.Atoi: parsing '' @ [CHR 0x22] @ s @ [CHR 0x22] @ '': '' @ why)))
      in if digits = [] \<or> \<not> list_all isDigit digits then (0, failure ''invalid syntax'')
         else
           let n = digitsValue 0 digits in
           if negative then
             (if n \<le> 2 ^ 63 then (- n, None) else (- (2 ^ 63), failure ''value out of range''))
           else
             (if n \<le> 2 ^ 63 - 1 then (n, None) else (2 ^ 63 - 1, failure ''value out of range'')))"

text \<open>
  What a call of \<open>Process\<close> does to the world outside, in order: the calls of the filters
  and of the feature with what they are given (a result filter also with the error it
  returns), the lines written to the log, and the statistics trigger.
\<close>

datatype event =
    CommandFilterCall CommandFilter Command
  | FeatureExecuteCall string Command
  | ResultFilterCall ResultFilter Result "error option"
  | LoggerInfo string
  | CommandStatsTrigger

text \<open>The local variables of \<open>Process\<close>, the events so far and the two deferred calls.\<close>

record ProcessVars =
  v_cmd :: Command
  v_ret :: "Result option"
  v_filterDisapproval :: "error option"
  v_overrideLintText :: LintText
  v_hasOverrideLintText :: bool
  v_logCommandContent :: string
  v_events :: "event list"
  v_deferStats :: bool
  v_deferLog :: bool

definition LintText_zero :: LintText where
  "LintText_zero = \<lparr>TrimSpaces = False, CompressToSingleLine = False, KeepVisible7BitCharOnly = False,
     CompressSpaces = False, BeginPosition = 0, MaxLength = 0\<rparr>"

definition initialVars :: "Command \<Rightarrow> ProcessVars" where
  "initialVars cmd = \<lparr>v_cmd = cmd, v_ret = None, v_filterDisapproval = None,
     v_overrideLintText = LintText_zero, v_hasOverrideLintText = False, v_logCommandContent = [],
     v_events = [], v_deferStats = False, v_deferLog = False\<rparr>"

definition errorResult :: "error \<Rightarrow> Result" where
  "errorResult e = Result_zero\<lparr>Error := Some e\<rparr>"

text \<open>The walk through the command filters. The flag tells whether the walk ends in
  \<open>goto result\<close>.\<close>

fun walkCommandFilters :: "CommandFilter list \<Rightarrow> ProcessVars \<Rightarrow> bool \<times> ProcessVars" where
  "walkCommandFilters [] v = (False, v)"
| "walkCommandFilters (cmdBridge # rest) v =
     (case CommandFilter_Transform cmdBridge (v_cmd v) of
        (cmd', disapproval) \<Rightarrow>
          let v' = v\<lparr>v_cmd := cmd', v_filterDisapproval := disapproval,
                     v_events := v_events v @ [CommandFilterCall cmdBridge (v_cmd v)]\<rparr>
          in (case disapproval of
                Some e \<Rightarrow> (True, v'\<lparr>v_ret := Some (errorResult e)\<rparr>)
              | None \<Rightarrow> walkCommandFilters rest v'))"

text \<open>The first \<open>LintText\<close> among the result filters, which the PLT override copies.\<close>

fun firstLintText :: "ResultFilter list \<Rightarrow> LintText option" where
  "firstLintText [] = None"
| "firstLintText (LintTextFilter aBridge # rest) = Some aBridge"
| "firstLintText (other # rest) = firstLintText rest"

text \<open>The PLT override. The flag tells whether it ends in \<open>goto result\<close>. Each
  \<open>strconv.Atoi\<close> assigns its value before its error is looked at.\<close>

definition overridePLT :: "CommandProcessor \<Rightarrow> ProcessVars \<Rightarrow> bool \<times> ProcessVars" where
  "overridePLT proc v =
     (case FindAndRemovePrefix (v_cmd v) PrefixCommandPLT of
        (False, unchanged) \<Rightarrow> (False, v)
      | (True, stripped) \<Rightarrow>
          (case firstLintText (ResultFilters proc) of
             None \<Rightarrow>
               (True, v\<lparr>v_cmd := stripped,
                  v_ret := Some (errorResult
                    (errors_New ''PLT is not available because LintText is not used''))\<rparr>)
           | Some aBridge \<Rightarrow>
               let v1 = v\<lparr>v_cmd := stripped, v_overrideLintText := aBridge,
                          v_hasOverrideLintText := True\<rparr>;
                   pltParams = FindStringSubmatch (Content stripped);
                   badPLT = (\<lambda>w. (True, w\<lparr>v_ret := Some (errorResult ErrBadPLT)\<rparr>))
               in if length pltParams \<noteq> 5 then badPLT v1
                  else
                    let v2 = v1\<lparr>v_overrideLintText :=
                                (v_overrideLintText v1)\<lparr>BeginPosition := fst (Atoi (pltParams ! 1))\<rparr>\<rparr>
                    in if snd (Atoi (pltParams ! 1)) \<noteq> None then badPLT v2
                    else
                      let v3 = v2\<lparr>v_overrideLintText :=
                                  (v_overrideLintText v2)\<lparr>MaxLength := fst (Atoi (pltParams ! 2))\<rparr>\<rparr>
                      in if snd (Atoi (pltParams ! 2)) \<noteq> None then badPLT v3
                      else
                        let v4 = v3\<lparr>v_cmd := (v_cmd v3)\<lparr>TimeoutSec := fst (Atoi (pltParams ! 3))\<rparr>\<rparr>
                        in if snd (Atoi (pltParams ! 3)) \<noteq> None then badPLT v4
                        else
                          let v5 = v4\<lparr>v_cmd := (v_cmd v4)\<lparr>Content := pltParams ! 4\<rparr>\<rparr>
                          in if Content (v_cmd v5) = [] then badPLT v5 else (False, v5)))"

definition hiddenContent :: string where
  "hiddenContent = ''<hidden due to AESDecryptTrigger or TwoFATrigger>''"

text \<open>The loop over \<open>LookupByTrigger\<close>: the first trigger that is a prefix of the command
  is removed from it and selects the feature.\<close>

fun lookupFeature :: "Imports \<Rightarrow> (string \<times> Feature) list \<Rightarrow> ProcessVars
    \<Rightarrow> (string \<times> Feature) option \<times> ProcessVars" where
  "lookupFeature imp [] v = (None, v)"
| "lookupFeature imp ((triggerPrefix, configuredFeature) # rest) v =
     (case FindAndRemovePrefix (v_cmd v) triggerPrefix of
        (True, stripped) \<Rightarrow>
          (Some (triggerPrefix, configuredFeature),
           v\<lparr>v_cmd := stripped,
             v_logCommandContent :=
               (if triggerPrefix = AESDecryptTrigger imp \<or> triggerPrefix = TwoFATrigger imp
                then hiddenContent else v_logCommandContent v)\<rparr>)
      | (False, unchanged) \<Rightarrow> lookupFeature imp rest v)"

text \<open>\<open>Process\<close> from the walk through the command filters to the label \<open>result\<close>:
  \<open>Inr\<close> with the variables as they are at the label, or \<open>Inl\<close> when the call panics,
  which it does where \<open>proc.Features\<close> is dereferenced and is nil.\<close>

definition processBody :: "Imports \<Rightarrow> CommandProcessor \<Rightarrow> ProcessVars \<Rightarrow> ProcessVars + ProcessVars" where
  "processBody imp proc v0 =
     (case walkCommandFilters (CommandFilters proc) v0 of
        (True, v) \<Rightarrow> Inr v
      | (False, v) \<Rightarrow>
          (case Command_Trim imp (v_cmd v) of
             (trimmed, Some r) \<Rightarrow> Inr (v\<lparr>v_cmd := trimmed, v_ret := Some r, v_deferStats := True\<rparr>)
           | (trimmed, None) \<Rightarrow>
               (case overridePLT proc (v\<lparr>v_cmd := trimmed, v_ret := None, v_deferStats := True\<rparr>) of
                  (True, v') \<Rightarrow> Inr v'
                | (False, v') \<Rightarrow>
                    let v1 = v'\<lparr>v_logCommandContent := Content (v_cmd v')\<rparr> in
                    (case Features proc of
                       None \<Rightarrow> Inl v1
                     | Some features \<Rightarrow>
                         (case lookupFeature imp (LookupByTrigger features) v1 of
                            (None, v2) \<Rightarrow> Inr (v2\<lparr>v_ret := Some (errorResult ErrBadPrefix)\<rparr>)
                          | (Some (triggerPrefix, matchedFeature), v2) \<Rightarrow>
                              Inr (v2\<lparr>v_events := v_events v2 @
                                      [LoggerInfo (''going to run '' @ v_logCommandContent v2),
                                       FeatureExecuteCall triggerPrefix (v_cmd v2)],
                                    v_deferLog := True,
                                    v_ret := Some (Execute matchedFeature (v_cmd v2))\<rparr>))))))"

text \<open>The walk through the result filters. A \<open>LintText\<close> filter is replaced by the override
  when there is one. When a filter fails, a new result is returned that holds the command
  of the result so far and \<open>filterDisapproval\<close>.\<close>

definition overridden :: "ProcessVars \<Rightarrow> ResultFilter \<Rightarrow> ResultFilter" where
  "overridden v resultFilter =
     (case resultFilter of
        LintTextFilter configured \<Rightarrow>
          if v_hasOverrideLintText v then LintTextFilter (v_overrideLintText v) else resultFilter
      | other \<Rightarrow> resultFilter)"

fun walkResultFilters :: "ResultFilter list \<Rightarrow> ProcessVars \<Rightarrow> Result \<Rightarrow> Result \<times> event list" where
  "walkResultFilters [] v ret = (ret, [])"
| "walkResultFilters (resultFilter # rest) v ret =
     (case ResultFilter_Transform (overridden v resultFilter) ret of
        (ret', Some err) \<Rightarrow>
          (Result_zero\<lparr>Command := Command ret', Error := v_filterDisapproval v\<rparr>,
           [ResultFilterCall (overridden v resultFilter) ret (Some err)])
      | (ret', None) \<Rightarrow>
          (case walkResultFilters rest v ret' of
             (final, calls) \<Rightarrow>
               (final, ResultFilterCall (overridden v resultFilter) ret None # calls)))"

text \<open>What a call of \<open>Process\<close> leaves: the result returned (\<open>None\<close> when the call
  panics), the processor, the last value of \<open>logCommandContent\<close>, and the events.\<close>

record ProcessRun =
  returned :: "Result option"
  processor :: CommandProcessor
  logged :: string
  trace :: "event list"

text \<open>A panic unwinds through the deferred calls and returns nothing.\<close>

definition panicked :: "CommandProcessor \<Rightarrow> ProcessVars \<Rightarrow> ProcessRun" where
  "panicked proc v =
     \<lparr>returned = None, processor = proc, logged = v_logCommandContent v,
      trace = v_events v @ (if v_deferStats v then [CommandStatsTrigger] else [])\<rparr>"

text \<open>From the label \<open>result\<close> to the return, the deferred calls included (the log line
  first, the statistics last). The first statement at the label dereferences \<open>ret\<close>.\<close>

definition finishProcess :: "CommandProcessor \<Rightarrow> bool \<Rightarrow> ProcessVars \<Rightarrow> ProcessRun" where
  "finishProcess proc runResultFilters v =
     (case v_ret v of
        None \<Rightarrow> panicked proc v
      | Some r \<Rightarrow>
          let ret = ResetCombinedText
                      (r\<lparr>Command := (v_cmd v)\<lparr>Content := v_logCommandContent v\<rparr>\<rparr>);
              walked = (if runResultFilters then walkResultFilters (ResultFilters proc) v ret
                        else (ret, []));
              deferred =
                (if v_deferLog v
                 then [LoggerInfo (''finished '' @ v_logCommandContent v @ '' (ok? ''
                         @ (if Error (fst walked) = None then ''true'' else ''false'') @ '')'')]
                 else [])
                @ (if v_deferStats v then [CommandStatsTrigger] else [])
          in \<lparr>returned = Some (fst walked), processor = proc, logged = v_logCommandContent v,
              trace = v_events v @ snd walked @ deferred\<rparr>)"

definition Process :: "Imports \<Rightarrow> CommandProcessor \<Rightarrow> Command \<Rightarrow> bool \<Rightarrow> ProcessRun" where
  "Process imp proc0 cmd runResultFilters =
     (let proc = initialiseOnce proc0 in
      if EmergencyLockDown imp
      then \<lparr>returned = Some (errorResult (ErrEmergencyLockDown imp)), processor = proc,
            logged = [], trace = []\<rparr>
      else
        (case rateLimit proc of
           None \<Rightarrow> panicked proc (initialVars cmd)
         | Some limit \<Rightarrow>
             (case RateLimit_Add limit ''instance'' of
                (False, limit') \<Rightarrow>
                  \<lparr>returned = Some (errorResult ErrRateLimitExceeded),
                   processor = proc\<lparr>rateLimit := Some limit'\<rparr>, logged = [], trace = []\<rparr>
              | (True, limit') \<Rightarrow>
                  let proc' = proc\<lparr>rateLimit := Some limit'\<rparr> in
                  (case processBody imp proc' (initialVars cmd) of
                     Inl v \<Rightarrow> panicked proc' v
                   | Inr v \<Rightarrow> finishProcess proc' runResultFilters v))))"

text \<open>The walk through the command filters for the command alone: the command and the
  error with which the walk ends, the error being \<open>None\<close> when every filter approves.\<close>

fun applyCommandFilters :: "CommandFilter list \<Rightarrow> Command \<Rightarrow> Command \<times> error option" where
  "applyCommandFilters [] cmd = (cmd, None)"
| "applyCommandFilters (cmdBridge # rest) cmd =
     (case CommandFilter_Transform cmdBridge cmd of
        (cmd', Some e) \<Rightarrow> (cmd', Some e)
      | (cmd', None) \<Rightarrow> applyCommandFilters rest cmd')"

section \<open>White space, lines and visible text\<close>

text \<open>The notions in which the effect of the steps of \<open>LintText.Transform\<close> is described.
  A list of patterns is white when it holds every ASCII white space byte as a pattern of its own
  and, besides, only patterns of two or more bytes from \<open>0x80\<close> on: so are the encodings
  of the white space runes, read forwards or backwards.\<close>

definition whitePatterns :: "string list \<Rightarrow> bool" where
  "whitePatterns ps =
     ((\<forall>p \<in> set ps. (\<exists>c. p = [c] \<and> asciiSpace c) \<or> (2 \<le> length p \<and> (\<forall>c \<in> set p. 0x80 \<le> byte c)))
      \<and> (\<forall>c. asciiSpace c \<longrightarrow> [c] \<in> set ps))"

text \<open>A string is trimmed when no white space rune begins it and none ends it, which is when
  \<open>TrimSpace\<close> leaves it as it is.\<close>

definition trimmed :: "string \<Rightarrow> bool" where
  "trimmed s = (\<not> list_ex (\<lambda>p. prefix p s) spaceRunes
                \<and> \<not> list_ex (\<lambda>p. prefix p (rev s)) (map rev spaceRunes))"

text \<open>\<open>strings.Join(ts, "\n")\<close>: the lines with a line feed between them.\<close>

definition joinLines :: "string list \<Rightarrow> string" where
  "joinLines ts = (if ts = [] then [] else concat (map (\<lambda>t. t @ [newline]) (butlast ts)) @ last ts)"

text \<open>The lines that step 1 produces: each trimmed and free of line feeds, the first and the
  last not empty.\<close>

definition linesNormal :: "string list \<Rightarrow> bool" where
  "linesNormal ts =
     (list_all (\<lambda>t. trimmed t \<and> newline \<notin> set t) ts \<and> (ts = [] \<or> (hd ts \<noteq> [] \<and> last ts \<noteq> [])))"

definition normalText :: "string \<Rightarrow> bool" where
  "normalText z = (\<exists>ts. linesNormal ts \<and> z = joinLines ts)"

text \<open>The bytes that step 3 keeps.\<close>

definition kept :: "char \<Rightarrow> bool" where
  "kept c = (byte c < 128 \<and> (0x20 \<le> byte c \<and> byte c \<le> 0x7E \<or> asciiSpace c))"

text \<open>Steps 2, 3 and 4 of \<open>LintText.Transform\<close> taken together, as \<open>lintText\<close>
  runs them.\<close>

definition steps234 :: "LintText \<Rightarrow> string \<Rightarrow> string" where
  "steps234 lint ret1 =
     (let ret2 = (if CompressToSingleLine lint then Replace ret1 [newline] '';'' else ret1);
          ret3 = (if KeepVisible7BitCharOnly lint then keepVisible7Bit ret2 else ret2)
      in if CompressSpaces lint then compressSpaces ret3 else ret3)"

section \<open>The processors of the tests\<close>

text \<open>\<open>GetTestCommandProcessor\<close>, over the feature set that \<open>features.Initialise()\<close>
  leaves, and the zero processor \<open>&common.CommandProcessor{}\<close> of the HTTP daemon's
  test.\<close>

definition TestCommandProcessorPIN :: string where
  "TestCommandProcessorPIN = ''verysecret''"

definition GetTestCommandProcessor :: "FeatureSet \<Rightarrow> CommandProcessor" where
  "GetTestCommandProcessor features =
     \<lparr>Features = Some features,
      CommandFilters =
        [PINAndShortcutsFilter \<lparr>PIN = TestCommandProcessorPIN, Shortcuts = []\<rparr>,
         TranslateSequencesFilter \<lparr>Sequences = [[''alpha'', ''beta'']]\<rparr>],
      ResultFilters =
        [LintTextFilter (LintText_zero\<lparr>TrimSpaces := True, MaxLength := 35\<rparr>),
         SayEmptyOutputFilter,
         NotifyViaEmailFilter \<lparr>Recipients = [], MailClient_IsConfigured = False\<rparr>],
      MaxCmdPerSec = 0, rateLimit = None, initOnce = False\<rparr>"

definition CommandProcessor_zero :: CommandProcessor where
  "CommandProcessor_zero =
     \<lparr>Features = None, CommandFilters = [], ResultFilters = [],
      MaxCmdPerSec = 0, rateLimit = None, initOnce = False\<rparr>"

text \<open>What the examples below run with: values for the imported names, a feature set
  whose one feature, with the trigger \<open>.s\<close>, gives its command back as output, and a
  result filter that fails.\<close>

definition exampleImports :: Imports where
  "exampleImports =
     \<lparr>EmergencyLockDown = False, ErrEmergencyLockDown = errors_New ''LOCKED DOWN'',
      ErrEmptyCommand = errors_New ''empty command'',
      AESDecryptTrigger = ''.a'', TwoFATrigger = ''.2''\<rparr>"

definition exampleFeatures :: FeatureSet where
  "exampleFeatures =
     \<lparr>LookupByTrigger =
        [(''.s'', \<lparr>Execute = (\<lambda>cmd. Result_zero\<lparr>Command := cmd, Output := Content cmd\<rparr>)\<rparr>)]\<rparr>"

definition failingResultFilter :: ResultFilter where
  "failingResultFilter = OtherResultFilter (\<lambda>result. (result, Some (errors_New ''no route to mail host'')))"

definition exampleCommand :: "string \<Rightarrow> Command" where
  "exampleCommand content = \<lparr>DaemonName = ''httpd'', TimeoutSec = 10, Content = content\<rparr>"

text \<open>A \<open>LintText\<close> with the four rewriting steps on and nothing cut, and a result whose
  output has white space of several kinds, a rune of three bytes and an invalid byte.\<close>

definition exampleLintText :: LintText where
  "exampleLintText =
     \<lparr>TrimSpaces = True, CompressToSingleLine = True, KeepVisible7BitCharOnly = True,
      CompressSpaces = True, BeginPosition = 0, MaxLength = 0\<rparr>"

definition exampleResult :: Result where
  "exampleResult =
     \<lparr>Command = Command_zero, Error = None, Output = [],
      CombinedOutput = [CHR 0xC2, CHR 0xA0] @ '' a   b ''
                         @ [newline, CHR 0xE4, CHR 0xBD, CHR 0xA0, CHR 0xFF] @ '' c ''
                         @ [newline, newline]\<rparr>"

text \<open>A \<open>LintText\<close> that only cuts the first byte.\<close>

definition cutFirstByte :: LintText where
  "cutFirstByte =
     \<lparr>TrimSpaces = False, CompressToSingleLine = False, KeepVisible7BitCharOnly = False,
      CompressSpaces = False, BeginPosition = 1, MaxLength = 0\<rparr>"

definition abcResult :: Result where
  "abcResult = \<lparr>Command = Command_zero, Error = None, Output = [], CombinedOutput = ''abc''\<rparr>"

text \<open>A \<open>LintText\<close> that trims and keeps two bytes.\<close>

definition trimAndCut :: LintText where
  "trimAndCut =
     \<lparr>TrimSpaces = True, CompressToSingleLine = False, KeepVisible7BitCharOnly = False,
      CompressSpaces = False, BeginPosition = 0, MaxLength = 2\<rparr>"

section \<open>Properties of the white space patterns\<close>

lemma byte_inject: "byte c = byte d \<Longrightarrow> c = d"
  by (simp add: byte_def)

lemma asciiSpace_cases:
  "asciiSpace c \<longleftrightarrow> c = CHR 0x09 \<or> c = CHR 0x0A \<or> c = CHR 0x0B \<or> c = CHR 0x0C \<or> c = CHR 0x0D \<or> c = CHR 0x20"
proof
  assume "asciiSpace c"
  then have "byte c = byte (CHR 0x09) \<or> byte c = byte (CHR 0x0A) \<or> byte c = byte (CHR 0x0B)
      \<or> byte c = byte (CHR 0x0C) \<or> byte c = byte (CHR 0x0D) \<or> byte c = byte (CHR 0x20)"
    by (simp add: asciiSpace_def byte_def)
  then show "c = CHR 0x09 \<or> c = CHR 0x0A \<or> c = CHR 0x0B \<or> c = CHR 0x0C \<or> c = CHR 0x0D \<or> c = CHR 0x20"
    by (blast dest: byte_inject)
next
  assume "c = CHR 0x09 \<or> c = CHR 0x0A \<or> c = CHR 0x0B \<or> c = CHR 0x0C \<or> c = CHR 0x0D \<or> c = CHR 0x20"
  then show "asciiSpace c"
    by (elim disjE) (simp_all add: asciiSpace_def byte_def)
qed

lemma asciiSpace_ascii: "asciiSpace c \<Longrightarrow> byte c < 0x80"
  by (auto simp: asciiSpace_def)

lemma spaceRunes_shape:
  "\<forall>p \<in> set spaceRunes. (\<exists>c. p = [c] \<and> asciiSpace c) \<or> (2 \<le> length p \<and> (\<forall>c \<in> set p. 0x80 \<le> byte c))"
  unfolding spaceRunes_def by (simp add: asciiSpace_def byte_def)

lemma spaceRunes_ascii: "asciiSpace c \<Longrightarrow> [c] \<in> set spaceRunes"
  unfolding asciiSpace_cases by (elim disjE) (simp_all add: spaceRunes_def)

lemma whitePatterns_spaceRunes: "whitePatterns spaceRunes"
  unfolding whitePatterns_def using spaceRunes_shape spaceRunes_ascii by blast

lemma whitePatterns_rev:
  assumes "whitePatterns ps"
  shows "whitePatterns (map rev ps)"
  unfolding whitePatterns_def
proof (intro conjI ballI allI impI)
  fix q assume "q \<in> set (map rev ps)"
  then obtain p where p: "p \<in> set ps" "q = rev p" by auto
  with assms have "(\<exists>c. p = [c] \<and> asciiSpace c) \<or> (2 \<le> length p \<and> (\<forall>c \<in> set p. 0x80 \<le> byte c))"
    by (simp add: whitePatterns_def)
  with p(2) show "(\<exists>c. q = [c] \<and> asciiSpace c) \<or> (2 \<le> length q \<and> (\<forall>c \<in> set q. 0x80 \<le> byte c))"
    by auto
next
  fix c assume "asciiSpace c"
  with assms have "[c] \<in> set ps" by (simp add: whitePatterns_def)
  then have "rev [c] \<in> rev ` set ps" by (rule imageI)
  then show "[c] \<in> set (map rev ps)" by simp
qed

section \<open>trimLeftBy\<close>

lemma find_prefix_None: "find (\<lambda>p. prefix p s) ps = None \<longleftrightarrow> (\<forall>p \<in> set ps. \<not> prefix p s)"
  by (auto simp: find_None_iff)

lemma find_prefix_Some: "find (\<lambda>p. prefix p s) ps = Some p \<Longrightarrow> p \<in> set ps \<and> prefix p s"
  by (auto simp: find_Some_iff)

lemma whitePatterns_nonempty: "whitePatterns ps \<Longrightarrow> p \<in> set ps \<Longrightarrow> p \<noteq> []"
  by (auto simp: whitePatterns_def)

text \<open>The result is what is left of the string behind what was dropped.\<close>

lemma trimLeftBy_suffix: "suffix (trimLeftBy ps s) s"
proof (induction ps s rule: trimLeftBy.induct)
  case (1 ps)
  show ?case by simp
next
  case (2 ps c cs)
  show ?case
  proof (cases "find (\<lambda>p. prefix p (c # cs)) ps")
    case None
    then show ?thesis by simp
  next
    case (Some p)
    from 2 [OF Some] have "suffix (trimLeftBy ps (drop (length p - 1) cs)) (drop (length p - 1) cs)" .
    also have "suffix (drop (length p - 1) cs) (c # cs)"
      by (simp add: suffix_drop suffix_ConsI)
    finally show ?thesis using Some by simp
  qed
qed

lemma trimLeftBy_done:
  "whitePatterns ps \<Longrightarrow> \<forall>p \<in> set ps. \<not> prefix p (trimLeftBy ps s)"
proof (induction ps s rule: trimLeftBy.induct)
  case (1 ps)
  then show ?case by (auto dest: whitePatterns_nonempty)
next
  case (2 ps c cs)
  show ?case
  proof (cases "find (\<lambda>p. prefix p (c # cs)) ps")
    case None
    then have "trimLeftBy ps (c # cs) = c # cs" by simp
    with None show ?thesis by (simp only: find_prefix_None) 
  next
    case (Some p)
    with 2 show ?thesis by simp
  qed
qed

lemma trimLeftBy_fixed:
  "\<forall>p \<in> set ps. \<not> prefix p s \<Longrightarrow> trimLeftBy ps s = s"
  by (cases s) (simp_all add: find_prefix_None [symmetric])

lemma trimLeftBy_ascii:
  assumes white: "whitePatterns ps" and c: "asciiSpace c"
  shows "trimLeftBy ps (c # cs) = trimLeftBy ps cs"
proof -
  from white c have "[c] \<in> set ps" by (simp add: whitePatterns_def)
  moreover have "prefix [c] (c # cs)" by simp
  ultimately have "find (\<lambda>p. prefix p (c # cs)) ps \<noteq> None"
    unfolding find_prefix_None by blast
  then obtain p where p: "find (\<lambda>p. prefix p (c # cs)) ps = Some p" by auto
  from find_prefix_Some [OF p] have mem: "p \<in> set ps" and pre: "prefix p (c # cs)" by simp_all
  from white mem have "p \<noteq> []" by (rule whitePatterns_nonempty)
  with pre have "c \<in> set p" by (cases p) auto
  moreover from c have "byte c < 0x80" by (rule asciiSpace_ascii)
  ultimately have "length p = 1"
    using white mem by (fastforce simp: whitePatterns_def)
  with p show ?thesis by simp
qed

text \<open>A string that does not begin with a pattern does not come to begin with one when
  an ASCII byte and more is put behind it.\<close>

lemma no_prefix_append_ascii:
  assumes white: "whitePatterns ps" and no: "\<forall>p \<in> set ps. \<not> prefix p s"
    and s: "s \<noteq> []" and x: "byte x < 0x80"
  shows "\<forall>p \<in> set ps. \<not> prefix p (s @ x # t)"
proof (intro ballI notI)
  fix p assume mem: "p \<in> set ps" and pre: "prefix p (s @ x # t)"
  from no mem have "\<not> prefix p s" by simp
  with pre have "prefix (s @ [x]) p"
    by (metis append.assoc append_Cons append_Nil prefix_append prefix_snoc prefix_order.dual_order.refl prefix_same_cases)
  then have "x \<in> set p" "length s < length p"
    by (auto simp: prefix_def)
  with s have "2 \<le> length p" by (cases s) auto
  with white mem \<open>x \<in> set p\<close> x show False
    by (fastforce simp: whitePatterns_def)
qed

lemma no_prefix_take:
  "\<forall>p \<in> set ps. \<not> prefix p s \<Longrightarrow> \<forall>p \<in> set ps. \<not> prefix p (take n s)"
  by (meson prefix_order.trans take_is_prefix)

lemma trimmed_iff:
  "trimmed s \<longleftrightarrow> (\<forall>p \<in> set spaceRunes. \<not> prefix p s) \<and> (\<forall>p \<in> set (map rev spaceRunes). \<not> prefix p (rev s))"
  unfolding trimmed_def list_ex_iff by blast

lemmas white = whitePatterns_spaceRunes
lemmas white_rev = whitePatterns_rev [OF whitePatterns_spaceRunes]

lemma asciiSpace_newline: "asciiSpace newline"
  by (simp add: asciiSpace_def newline_def byte_def)

lemma newline_ascii: "byte newline < 0x80"
  by (simp add: newline_def byte_def)

lemma TrimSpace_Nil [simp]: "TrimSpace [] = []"
  by (simp add: TrimSpace_def TrimLeftSpace_def TrimRightSpace_def)

lemma trimmed_Nil [simp]: "trimmed []"
  unfolding trimmed_iff using whitePatterns_nonempty [OF white] whitePatterns_nonempty [OF white_rev]
  by auto

lemma TrimSpace_trimmed: "trimmed s \<Longrightarrow> TrimSpace s = s"
  unfolding trimmed_iff TrimSpace_def TrimLeftSpace_def TrimRightSpace_def
  by (simp add: trimLeftBy_fixed)

lemma TrimSpace_sublist: "\<exists>u w. s = u @ TrimSpace s @ w"
proof -
  from trimLeftBy_suffix [of spaceRunes s] obtain u where u: "s = u @ TrimLeftSpace s"
    by (auto simp: suffix_def TrimLeftSpace_def)
  from trimLeftBy_suffix [of "map rev spaceRunes" "rev (TrimLeftSpace s)"]
  obtain w where "rev (TrimLeftSpace s) = w @ trimLeftBy (map rev spaceRunes) (rev (TrimLeftSpace s))"
    by (auto simp: suffix_def)
  then have "TrimLeftSpace s = TrimSpace s @ rev w"
    by (metis TrimRightSpace_def TrimSpace_def rev_append rev_rev_ident)
  with u show ?thesis by metis
qed

lemma set_TrimSpace: "set (TrimSpace s) \<subseteq> set s"
proof -
  from TrimSpace_sublist [of s] obtain u w where "s = u @ TrimSpace s @ w" by blast
  then have "set s = set u \<union> set (TrimSpace s) \<union> set w" by (metis set_append sup_assoc)
  then show ?thesis by blast
qed

lemma trimmed_TrimSpace: "trimmed (TrimSpace s)"
proof -
  have left: "\<forall>p \<in> set spaceRunes. \<not> prefix p (TrimLeftSpace s)"
    unfolding TrimLeftSpace_def by (rule trimLeftBy_done [OF white])
  have right: "\<forall>p \<in> set (map rev spaceRunes). \<not> prefix p (rev (TrimSpace s))"
    unfolding TrimSpace_def TrimRightSpace_def rev_rev_ident by (rule trimLeftBy_done [OF white_rev])
  from trimLeftBy_suffix [of "map rev spaceRunes" "rev (TrimLeftSpace s)"]
  have "suffix (rev (TrimSpace s)) (rev (TrimLeftSpace s))"
    by (simp add: TrimSpace_def TrimRightSpace_def)
  then have "prefix (TrimSpace s) (TrimLeftSpace s)"
    by (simp add: suffix_to_prefix)
  with left have "\<forall>p \<in> set spaceRunes. \<not> prefix p (TrimSpace s)"
    by (meson prefix_order.trans)
  with right show ?thesis unfolding trimmed_iff by simp
qed

declare trimLeftBy.simps(2) [simp del]

lemma trimLeftBy_lines_front:
  assumes white: "whitePatterns ps"
    and lines: "\<forall>t \<in> set ts. \<forall>p \<in> set ps. \<not> prefix p t"
  shows "trimLeftBy ps (concat (map (\<lambda>t. t @ [newline]) ts))
         = concat (map (\<lambda>t. t @ [newline]) (dropWhile (\<lambda>t. t = []) ts))"
  using lines
proof (induction ts)
  case Nil
  show ?case by simp
next
  case (Cons t ts)
  show ?case
  proof (cases "t = []")
    case True
    with Cons show ?thesis
      by (simp add: trimLeftBy_ascii [OF white asciiSpace_newline])
  next
    case False
    from Cons.prems have "\<forall>p \<in> set ps. \<not> prefix p t" by simp
    from no_prefix_append_ascii [OF white this False newline_ascii]
    have "\<forall>p \<in> set ps. \<not> prefix p (t @ newline # concat (map (\<lambda>t. t @ [newline]) ts))" .
    then have "trimLeftBy ps (t @ newline # concat (map (\<lambda>t. t @ [newline]) ts))
               = t @ newline # concat (map (\<lambda>t. t @ [newline]) ts)"
      by (rule trimLeftBy_fixed)
    with False show ?thesis by simp
  qed
qed

lemma trimLeftBy_lines_end:
  assumes white: "whitePatterns ps"
    and lines: "\<forall>r \<in> set rs. \<forall>p \<in> set ps. \<not> prefix p r"
  shows "trimLeftBy ps (concat (map (\<lambda>r. newline # r) rs))
         = (case dropWhile (\<lambda>r. r = []) rs of
              [] \<Rightarrow> []
            | r # rest \<Rightarrow> r @ concat (map (\<lambda>r. newline # r) rest))"
  using lines
proof (induction rs)
  case Nil
  show ?case by simp
next
  case (Cons r rs)
  have strip: "trimLeftBy ps (concat (map (\<lambda>r. newline # r) (r # rs)))
               = trimLeftBy ps (r @ concat (map (\<lambda>r. newline # r) rs))"
    by (simp add: trimLeftBy_ascii [OF white asciiSpace_newline])
  show ?case
  proof (cases "r = []")
    case True
    with Cons strip show ?thesis by simp
  next
    case False
    from Cons.prems have no: "\<forall>p \<in> set ps. \<not> prefix p r" by simp
    have "\<forall>p \<in> set ps. \<not> prefix p (r @ concat (map (\<lambda>r. newline # r) rs))"
    proof (cases rs)
      case Nil
      with no show ?thesis by simp
    next
      case (Cons r' rs')
      with no_prefix_append_ascii [OF white no False newline_ascii] show ?thesis by simp
    qed
    then have "trimLeftBy ps (r @ concat (map (\<lambda>r. newline # r) rs))
               = r @ concat (map (\<lambda>r. newline # r) rs)"
      by (rule trimLeftBy_fixed)
    with False strip show ?thesis by simp
  qed
qed

lemma rev_lines:
  "rev (concat (map (\<lambda>t. t @ [newline]) ts)) = concat (map (\<lambda>r. newline # r) (map rev (rev ts)))"
  by (induction ts) simp_all

lemma joinLines_rev:
  "rev (case rs of [] \<Rightarrow> [] | r # rest \<Rightarrow> r @ concat (map (\<lambda>r. newline # r) rest))
   = joinLines (map rev (rev rs))"
proof (cases rs)
  case Nil
  then show ?thesis by (simp add: joinLines_def)
next
  case (Cons r rest)
  have "rev (concat (map (\<lambda>r. newline # r) rest)) = concat (map (\<lambda>t. t @ [newline]) (map rev (rev rest)))"
    by (induction rest) simp_all
  with Cons show ?thesis by (simp add: joinLines_def)
qed

text \<open>What \<open>TrimSpace\<close> leaves of trimmed lines written one after the other: the empty lines
  at both ends go, then the line feed behind the last line.\<close>

lemma TrimSpace_lines:
  assumes "\<forall>t \<in> set ts. trimmed t"
  shows "TrimSpace (concat (map (\<lambda>t. t @ [newline]) ts))
         = joinLines (rev (dropWhile (\<lambda>t. t = []) (rev (dropWhile (\<lambda>t. t = []) ts))))"
proof -
  let ?ts1 = "dropWhile (\<lambda>t. t = []) ts"
  from assms have front: "\<forall>t \<in> set ts. \<forall>p \<in> set spaceRunes. \<not> prefix p t"
    by (simp add: trimmed_iff)
  have left: "TrimLeftSpace (concat (map (\<lambda>t. t @ [newline]) ts)) = concat (map (\<lambda>t. t @ [newline]) ?ts1)"
    unfolding TrimLeftSpace_def by (rule trimLeftBy_lines_front [OF white front])
  have "set ?ts1 \<subseteq> set ts" by (rule set_dropWhileD [THEN subsetI])
  with assms have behind: "\<forall>r \<in> set (map rev (rev ?ts1)). \<forall>p \<in> set (map rev spaceRunes). \<not> prefix p r"
    by (auto simp: trimmed_iff)
  have null_rev: "dropWhile (\<lambda>r. r = []) (map rev xs) = map rev (dropWhile (\<lambda>t. t = []) xs)" for xs :: "string list"
    by (induction xs) simp_all
  have "TrimSpace (concat (map (\<lambda>t. t @ [newline]) ts))
        = rev (trimLeftBy (map rev spaceRunes) (concat (map (\<lambda>r. newline # r) (map rev (rev ?ts1)))))"
    by (simp only: TrimSpace_def left TrimRightSpace_def rev_lines)
  also have "\<dots> = rev (case dropWhile (\<lambda>r. r = []) (map rev (rev ?ts1)) of
              [] \<Rightarrow> []
            | r # rest \<Rightarrow> r @ concat (map (\<lambda>r. newline # r) rest))"
    by (simp only: trimLeftBy_lines_end [OF white_rev behind])
  also have "\<dots> = joinLines (map rev (rev (dropWhile (\<lambda>r. r = []) (map rev (rev ?ts1)))))"
    by (rule joinLines_rev)
  also have "\<dots> = joinLines (rev (dropWhile (\<lambda>t. t = []) (rev ?ts1)))"
    by (simp add: null_rev rev_map o_def)
  finally show ?thesis .
qed

lemma Split_line:
  "newline \<notin> set t \<Longrightarrow> Split (t @ newline # rest) newline = t # Split rest newline"
  by (induction t) auto

lemma Split_last_line:
  "newline \<notin> set t \<Longrightarrow> Split t newline = [t]"
  by (induction t) auto

lemma joinLines_Cons:
  "joinLines (t # ts) = (if ts = [] then t else t @ newline # joinLines ts)"
  by (simp add: joinLines_def)

lemma Split_joinLines:
  "ts \<noteq> [] \<Longrightarrow> \<forall>t \<in> set ts. newline \<notin> set t \<Longrightarrow> Split (joinLines ts) newline = ts"
proof (induction ts)
  case Nil
  then show ?case by simp
next
  case (Cons t ts)
  then show ?case
    by (cases "ts = []") (simp_all add: joinLines_Cons Split_line Split_last_line)
qed

lemma set_Split: "t \<in> set (Split s c) \<Longrightarrow> c \<notin> set t"
proof (induction s arbitrary: t)
  case Nil
  then show ?case by simp
next
  case (Cons x s)
  then show ?case
    by (cases "Split s c") (auto split: if_splits)
qed

text \<open>The result of step 1 is a sequence of normal lines, and a sequence of normal lines is
  what step 1 leaves as it is.\<close>

lemma trimLines_normal: "\<exists>ts. linesNormal ts \<and> trimLines x = joinLines ts"
proof -
  define ts where "ts = map TrimSpace (Split x newline)"
  define ts1 where "ts1 = dropWhile (\<lambda>t. t = []) ts"
  define ts2 where "ts2 = rev (dropWhile (\<lambda>t. t = []) (rev ts1))"
  have all: "\<forall>t \<in> set ts. trimmed t \<and> newline \<notin> set t"
    unfolding ts_def using set_Split set_TrimSpace trimmed_TrimSpace by fastforce
  have "concat (map (\<lambda>line. TrimSpace line @ [newline]) (Split x newline))
        = concat (map (\<lambda>t. t @ [newline]) ts)"
    by (simp add: ts_def comp_def)
  then have eq: "trimLines x = joinLines ts2"
    unfolding trimLines_def ts2_def ts1_def using all by (simp add: TrimSpace_lines)
  have "set ts1 \<subseteq> set ts" unfolding ts1_def by (meson set_dropWhileD subsetI)
  moreover have "set ts2 \<subseteq> set ts1" unfolding ts2_def by (metis set_dropWhileD set_rev subsetI)
  ultimately have each: "list_all (\<lambda>t. trimmed t \<and> newline \<notin> set t) ts2"
    using all unfolding list_all_iff by blast
  have ends: "hd ts2 \<noteq> [] \<and> last ts2 \<noteq> []" if ne: "ts2 \<noteq> []"
  proof
    from ne have "dropWhile (\<lambda>t. t = []) (rev ts1) \<noteq> []" by (simp add: ts2_def)
    then have "hd (dropWhile (\<lambda>t. t = []) (rev ts1)) \<noteq> []"
      by (rule hd_dropWhile)
    with ne show "last ts2 \<noteq> []" by (simp add: ts2_def last_rev)
    from ne have ne1: "ts1 \<noteq> []" by (auto simp: ts2_def)
    then have h1: "hd ts1 \<noteq> []" unfolding ts1_def by (rule hd_dropWhile)
    obtain k where k: "ts2 = take k ts1"
      unfolding ts2_def by (metis dropWhile_eq_drop rev_drop rev_rev_ident)
    with ne have "hd ts2 = hd ts1" by (metis hd_take take_eq_Nil neq0_conv take_0)
    with h1 show "hd ts2 \<noteq> []" by simp
  qed
  from each ends have "linesNormal ts2" unfolding linesNormal_def by blast
  with eq show ?thesis by blast
qed

lemma trimLines_joinLines:
  assumes "linesNormal ts"
  shows "trimLines (joinLines ts) = joinLines ts"
proof (cases "ts = []")
  case True
  have "TrimSpace [newline] = []"
    by (simp add: TrimSpace_def TrimLeftSpace_def TrimRightSpace_def
        trimLeftBy_ascii [OF white asciiSpace_newline])
  with True show ?thesis by (simp add: joinLines_def trimLines_def)
next
  case False
  from assms have each: "\<forall>t \<in> set ts. trimmed t \<and> newline \<notin> set t"
    and ends: "hd ts \<noteq> []" "last ts \<noteq> []"
    using False by (auto simp: linesNormal_def list_all_iff)
  from each False have split: "Split (joinLines ts) newline = ts"
    by (simp add: Split_joinLines)
  from each have same: "map TrimSpace ts = ts"
    by (simp add: TrimSpace_trimmed map_idI)
  have m: "map (\<lambda>line. TrimSpace line @ [newline]) ts = map (\<lambda>t. t @ [newline]) ts"
    using each by (simp add: TrimSpace_trimmed)
  have "trimLines (joinLines ts) = TrimSpace (concat (map (\<lambda>t. t @ [newline]) ts))"
    by (simp only: trimLines_def split m)
  also have "\<dots> = joinLines (rev (dropWhile (\<lambda>t. t = []) (rev (dropWhile (\<lambda>t. t = []) ts))))"
    using each by (simp add: TrimSpace_lines)
  also have "dropWhile (\<lambda>t. t = []) ts = ts"
    using False ends(1) by (cases ts) simp_all
  also have "dropWhile (\<lambda>t. t = []) (rev ts) = rev ts"
    using False ends(2) by (cases "rev ts") (simp_all add: last_rev [symmetric] hd_rev)
  finally show ?thesis by simp
qed

lemma trimmed_joinLines:
  assumes "linesNormal ts"
  shows "trimmed (joinLines ts)"
proof (cases ts)
  case Nil
  then show ?thesis by (simp add: joinLines_def)
next
  case (Cons t ts')
  from assms Cons have t: "trimmed t" "t \<noteq> []" and l: "trimmed (last ts)" "last ts \<noteq> []"
    by (auto simp: linesNormal_def list_all_iff)
  have front: "\<forall>p \<in> set spaceRunes. \<not> prefix p (joinLines ts)"
  proof (cases "ts' = []")
    case True
    with Cons t show ?thesis by (simp add: joinLines_Cons trimmed_iff)
  next
    case False
    from t have "\<forall>p \<in> set spaceRunes. \<not> prefix p t" by (simp add: trimmed_iff)
    from no_prefix_append_ascii [OF white this t(2) newline_ascii]
    show ?thesis using Cons False by (simp add: joinLines_Cons)
  qed
  have rev_join: "rev (joinLines ts)
      = rev (last ts) @ concat (map (\<lambda>r. newline # r) (map rev (rev (butlast ts))))"
    using Cons by (simp add: joinLines_def rev_lines del: last.simps butlast.simps)
  from l have no: "\<forall>p \<in> set (map rev spaceRunes). \<not> prefix p (rev (last ts))"
    and ne: "rev (last ts) \<noteq> []"
    by (simp_all add: trimmed_iff)
  have "\<forall>p \<in> set (map rev spaceRunes). \<not> prefix p (rev (joinLines ts))"
  proof (cases "rev (butlast ts)")
    case Nil
    with no rev_join show ?thesis by simp
  next
    case (Cons r rs)
    with no_prefix_append_ascii [OF white_rev no ne newline_ascii] rev_join show ?thesis
      by simp
  qed
  with front show ?thesis by (simp add: trimmed_iff)
qed

lemma normalText_trimmed: "normalText z \<Longrightarrow> trimmed z"
  by (auto simp: normalText_def trimmed_joinLines)

lemma normalText_single:
  assumes "trimmed z" and "newline \<notin> set z"
  shows "normalText z"
proof (cases "z = []")
  case True
  have "linesNormal []" by (simp add: linesNormal_def)
  with True show ?thesis unfolding normalText_def by (metis joinLines_def)
next
  case False
  with assms have "linesNormal [z]" by (simp add: linesNormal_def)
  moreover have "z = joinLines [z]" by (simp add: joinLines_def)
  ultimately show ?thesis unfolding normalText_def by blast
qed

lemma trimLines_normalText: "normalText (trimLines x)"
  using trimLines_normal [of x] by (simp add: normalText_def)

lemma trimLines_fixed: "normalText z \<Longrightarrow> trimLines z = z"
  by (auto simp: normalText_def trimLines_joinLines)

section \<open>Step 2\<close>

lemma Replace_newline:
  "Replace s [newline] '';'' = map (\<lambda>c. if c = newline then CHR '';'' else c) s"
proof -
  have "replaceFrom [newline] '';'' 0 s = map (\<lambda>c. if c = newline then CHR '';'' else c) s"
    by (induction s) (simp_all add: HasPrefix_def)
  moreover have "[newline] \<noteq> '';''" by (simp add: newline_def)
  ultimately show ?thesis by (simp add: Replace_def)
qed

lemma white_no_semicolon:
  assumes "whitePatterns ps" and "p \<in> set ps"
  shows "CHR '';'' \<notin> set p"
proof
  assume mem: "CHR '';'' \<in> set p"
  have a: "\<not> asciiSpace (CHR '';'')" by (simp add: asciiSpace_def byte_def)
  have b: "\<not> 0x80 \<le> byte (CHR '';'')" by (simp add: byte_def)
  from assms have "(\<exists>c. p = [c] \<and> asciiSpace c) \<or> (\<forall>c \<in> set p. 0x80 \<le> byte c)"
    unfolding whitePatterns_def by blast
  with mem a b show False by auto
qed

lemma prefix_map_newline:
  assumes "prefix p (map (\<lambda>c. if c = newline then CHR '';'' else c) s)" and "CHR '';'' \<notin> set p"
  shows "prefix p s"
proof -
  let ?f = "\<lambda>c. if c = newline then CHR '';'' else c"
  define u where "u = take (length p) s"
  from assms(1) have "p = take (length p) (map ?f s)"
    by (auto simp: prefix_def)
  then have u: "p = map ?f u" "prefix u s"
    by (simp_all add: u_def take_map take_is_prefix)
  have "map ?f u = u"
  proof (rule map_idI)
    fix c assume "c \<in> set u"
    with u(1) have "?f c \<in> set p" by simp
    with assms(2) show "?f c = c" by (auto split: if_splits)
  qed
  with u show ?thesis by simp
qed

lemma trimmed_map_newline:
  assumes "trimmed s"
  shows "trimmed (map (\<lambda>c. if c = newline then CHR '';'' else c) s)"
  unfolding trimmed_iff
proof (intro conjI ballI notI)
  fix p assume "p \<in> set spaceRunes" "prefix p (map (\<lambda>c. if c = newline then CHR '';'' else c) s)"
  with prefix_map_newline white_no_semicolon [OF white] have "prefix p s" by blast
  with assms \<open>p \<in> set spaceRunes\<close> show False unfolding trimmed_iff by blast
next
  fix p assume p: "p \<in> set (map rev spaceRunes)"
    "prefix p (rev (map (\<lambda>c. if c = newline then CHR '';'' else c) s))"
  then have "prefix p (map (\<lambda>c. if c = newline then CHR '';'' else c) (rev s))"
    by (simp add: rev_map)
  with prefix_map_newline white_no_semicolon [OF white_rev] p(1) have "prefix p (rev s)" by blast
  with assms p(1) show False unfolding trimmed_iff by blast
qed

lemma no_newline_map: "newline \<notin> set (map (\<lambda>c. if c = newline then CHR '';'' else c) s)"
  by (auto simp: newline_def)

section \<open>Step 4\<close>

lemma compressSpaces_snoc:
  "\<not> asciiSpace x \<Longrightarrow> compressSpaces (s @ [x]) = compressSpaces s @ [x]"
proof (induction s rule: compressSpaces.induct)
  case 1
  then show ?case by simp
next
  case (2 c cs)
  show ?case
  proof (cases "asciiSpace c")
    case True
    have "dropWhile asciiSpace (cs @ [x]) = dropWhile asciiSpace cs @ [x]"
      using 2(3) by (induction cs) simp_all
    with 2 True show ?thesis by simp
  next
    case False
    with 2 show ?thesis by simp
  qed
qed

lemma compressSpaces_snoc_space:
  "asciiSpace x \<Longrightarrow> \<exists>r. compressSpaces (s @ [x]) = r @ '' ''"
proof (induction s rule: compressSpaces.induct)
  case 1
  then show ?case by simp
next
  case (2 c cs)
  show ?case
  proof (cases "asciiSpace c")
    case True
    show ?thesis
    proof (cases "dropWhile asciiSpace cs = []")
      case empty: True
      then have "\<forall>c \<in> set cs. asciiSpace c" by (simp add: dropWhile_eq_Nil_conv)
      with 2(3) have "dropWhile asciiSpace (cs @ [x]) = []" by simp
      with True show ?thesis by simp
    next
      case False
      then have "dropWhile asciiSpace (cs @ [x]) = dropWhile asciiSpace cs @ [x]"
        by (induction cs) (simp_all split: if_splits)
      with 2(1) [OF True 2(3)] True show ?thesis by auto
    qed
  next
    case False
    with 2 show ?thesis by auto
  qed
qed

lemma asciiSpace_space: "asciiSpace (CHR '' '')"
  by (simp add: asciiSpace_def byte_def)

lemma compressSpaces_head:
  "compressSpaces s = b # r \<Longrightarrow> \<not> asciiSpace b \<Longrightarrow> \<exists>s'. s = b # s' \<and> compressSpaces s' = r"
  using asciiSpace_space by (cases s) (auto split: if_splits)

lemma compressSpaces_last:
  assumes "compressSpaces s = r @ [b]" and "\<not> asciiSpace b"
  shows "\<exists>s'. s = s' @ [b] \<and> compressSpaces s' = r"
proof (cases s rule: rev_cases)
  case Nil
  with assms show ?thesis by simp
next
  case (snoc s' x)
  show ?thesis
  proof (cases "asciiSpace x")
    case True
    from compressSpaces_snoc_space [OF this, of s'] snoc assms(1) have "b = CHR '' ''" by auto
    with assms(2) asciiSpace_space show ?thesis by simp
  next
    case False
    from compressSpaces_snoc [OF this, of s'] snoc assms(1) show ?thesis by auto
  qed
qed

lemma prefix_compressSpaces:
  "prefix p (compressSpaces s) \<Longrightarrow> \<forall>c \<in> set p. \<not> asciiSpace c \<Longrightarrow> prefix p s"
proof (induction p arbitrary: s)
  case Nil
  show ?case by simp
next
  case (Cons b p)
  from Cons.prems(1) obtain r where "compressSpaces s = b # r" "prefix p r"
    by (cases "compressSpaces s") auto
  with compressSpaces_head [of s b r] Cons.prems(2)
  obtain s' where "s = b # s'" "prefix p (compressSpaces s')" by auto
  with Cons.IH [of s'] Cons.prems(2) show ?case by simp
qed

lemma suffix_compressSpaces:
  "suffix p (compressSpaces s) \<Longrightarrow> \<forall>c \<in> set p. \<not> asciiSpace c \<Longrightarrow> suffix p s"
proof (induction p arbitrary: s rule: rev_induct)
  case Nil
  show ?case by simp
next
  case (snoc b p)
  from snoc.prems(1) obtain u where "compressSpaces s = u @ p @ [b]"
    by (auto simp: suffix_def)
  then have "compressSpaces s = (u @ p) @ [b]" "suffix p (u @ p)"
    by (simp_all add: suffix_def)
  then obtain r where "compressSpaces s = r @ [b]" "suffix p r" by blast
  with compressSpaces_last [of s r b] snoc.prems(2)
  obtain s' where "s = s' @ [b]" "suffix p (compressSpaces s')" by auto
  with snoc.IH [of s'] snoc.prems(2) show ?case by simp
qed

lemma white_shape:
  "whitePatterns ps \<Longrightarrow> p \<in> set ps \<Longrightarrow>
   (\<exists>c. p = [c] \<and> asciiSpace c) \<or> (2 \<le> length p \<and> (\<forall>c \<in> set p. 0x80 \<le> byte c))"
  unfolding whitePatterns_def by blast

lemma white_single: "whitePatterns ps \<Longrightarrow> asciiSpace c \<Longrightarrow> [c] \<in> set ps"
  unfolding whitePatterns_def by blast

lemma not_asciiSpace_high: "0x80 \<le> byte c \<Longrightarrow> \<not> asciiSpace c"
  using asciiSpace_ascii [of c] by auto

lemma trimmed_front: "trimmed s \<Longrightarrow> p \<in> set spaceRunes \<Longrightarrow> \<not> prefix p s"
  by (simp add: trimmed_iff)

lemma trimmed_end: "trimmed s \<Longrightarrow> p \<in> set spaceRunes \<Longrightarrow> \<not> suffix p s"
  unfolding trimmed_iff suffix_to_prefix by auto

lemma trimmedI:
  assumes "\<And>p. p \<in> set spaceRunes \<Longrightarrow> \<not> prefix p s"
    and "\<And>p. p \<in> set spaceRunes \<Longrightarrow> \<not> suffix p s"
  shows "trimmed s"
  unfolding trimmed_iff using assms by (auto simp: suffix_to_prefix)

lemma trimmed_compressSpaces:
  assumes "trimmed s"
  shows "trimmed (compressSpaces s)"
proof (rule trimmedI)
  fix p assume p: "p \<in> set spaceRunes"
  show "\<not> prefix p (compressSpaces s)"
  proof
    assume pre: "prefix p (compressSpaces s)"
    from white_shape [OF white p] show False
    proof
      assume "\<exists>c. p = [c] \<and> asciiSpace c"
      then obtain c where c: "p = [c]" "asciiSpace c" by blast
      with pre obtain r where r: "compressSpaces s = c # r" by (cases "compressSpaces s") auto
      then obtain x xs where s: "s = x # xs" by (cases s) auto
      show False
      proof (cases "asciiSpace x")
        case True
        with s trimmed_front [OF assms white_single [OF white True]] show False by simp
      next
        case False
        with s r c show False by simp
      qed
    next
      assume "2 \<le> length p \<and> (\<forall>c \<in> set p. 0x80 \<le> byte c)"
      then have "\<forall>c \<in> set p. \<not> asciiSpace c" by (auto dest: not_asciiSpace_high)
      with pre have "prefix p s" by (rule prefix_compressSpaces)
      with trimmed_front [OF assms p] show False by simp
    qed
  qed
  show "\<not> suffix p (compressSpaces s)"
  proof
    assume suf: "suffix p (compressSpaces s)"
    from white_shape [OF white p] show False
    proof
      assume "\<exists>c. p = [c] \<and> asciiSpace c"
      then obtain c where c: "p = [c]" "asciiSpace c" by blast
      with suf obtain r where r: "compressSpaces s = r @ [c]" by (auto simp: suffix_def)
      then obtain s' x where s: "s = s' @ [x]" by (cases s rule: rev_cases) auto
      show False
      proof (cases "asciiSpace x")
        case True
        with s trimmed_end [OF assms white_single [OF white True]] show False
          by (simp add: suffix_def)
      next
        case False
        with s r c compressSpaces_snoc [OF False, of s'] show False by simp
      qed
    next
      assume "2 \<le> length p \<and> (\<forall>c \<in> set p. 0x80 \<le> byte c)"
      then have "\<forall>c \<in> set p. \<not> asciiSpace c" by (auto dest: not_asciiSpace_high)
      with suf have "suffix p s" by (rule suffix_compressSpaces)
      with trimmed_end [OF assms p] show False by simp
    qed
  qed
qed

lemma compressSpaces_spaces:
  "\<forall>c \<in> set (compressSpaces s). asciiSpace c \<longrightarrow> c = CHR '' ''"
  by (induction s rule: compressSpaces.induct) auto

lemma no_newline_compressSpaces: "newline \<notin> set (compressSpaces s)"
  using compressSpaces_spaces [of s] asciiSpace_newline by (auto simp: newline_def)

lemma set_compressSpaces: "set (compressSpaces s) \<subseteq> insert (CHR '' '') (set s)"
proof (induction s rule: compressSpaces.induct)
  case 1
  show ?case by simp
next
  case (2 c cs)
  have "set (dropWhile asciiSpace cs) \<subseteq> set cs" by (meson set_dropWhileD subsetI)
  with 2 show ?case by (cases "asciiSpace c") auto
qed

text \<open>Step 4 leaves every beginning of a compressed text as it is.\<close>

lemma compressSpaces_take:
  "compressSpaces (take n (compressSpaces s)) = take n (compressSpaces s)"
proof (induction s arbitrary: n rule: compressSpaces.induct)
  case 1
  show ?case by simp
next
  case (2 c cs)
  show ?case
  proof (cases n)
    case 0
    then show ?thesis by simp
  next
    case (Suc m)
    show ?thesis
    proof (cases "asciiSpace c")
      case True
      let ?rest = "compressSpaces (dropWhile asciiSpace cs)"
      have "dropWhile asciiSpace (take m ?rest) = take m ?rest"
      proof (cases "dropWhile asciiSpace cs")
        case Nil
        then have "?rest = []" by (simp only: compressSpaces.simps)
        then show ?thesis by (simp only: take_Nil dropWhile.simps)
      next
        case (Cons d ds)
        then have "\<not> asciiSpace d" by (metis hd_dropWhile list.sel(1) list.distinct(1))
        with Cons have "?rest = d # compressSpaces ds" by simp
        with \<open>\<not> asciiSpace d\<close> show ?thesis by (cases m) simp_all
      qed
      with 2(1) [OF True, of m] True Suc show ?thesis by simp
    next
      case False
      with 2(2) [OF False, of m] Suc show ?thesis by simp
    qed
  qed
qed

lemma compressSpaces_idem: "compressSpaces (compressSpaces s) = compressSpaces s"
  using compressSpaces_take [of "length (compressSpaces s)" s] by simp

lemma DecodeRuneWidth_bounds:
  "1 \<le> DecodeRuneWidth (c # cs) \<and> DecodeRuneWidth (c # cs) \<le> Suc (length cs)"
  by (simp add: DecodeRuneWidth_def Let_def split: list.splits)

lemma DecodeRuneWidth_ascii: "byte c < 0x80 \<Longrightarrow> DecodeRuneWidth (c # cs) = 1"
  by (simp add: DecodeRuneWidth_def)

lemma DecodeRuneWidth_append_ascii:
  assumes x: "byte x < 0x80"
  shows "DecodeRuneWidth (c # cs @ x # t) = DecodeRuneWidth (c # cs)"
proof -
  have nc: "\<not> continuation lo hi x" if "0x80 \<le> lo" for lo hi
    using that x by (simp add: continuation_def)
  consider "cs = []" | a where "cs = [a]" | a b where "cs = [a, b]"
    | a b d rest where "cs = a # b # d # rest"
    by (metis list.exhaust)
  then show ?thesis
    by cases (simp_all add: DecodeRuneWidth_def Let_def nc split: list.splits)
qed

lemma runes_ascii: "byte c < 0x80 \<Longrightarrow> runes (c # cs) = [c] # runes cs"
  by (simp add: DecodeRuneWidth_ascii)

lemma runes_append_ascii:
  "byte x < 0x80 \<Longrightarrow> runes (s @ x # t) = runes s @ runes (x # t)"
proof (induction s rule: runes.induct)
  case 1
  show ?case by simp
next
  case (2 c cs)
  let ?w = "DecodeRuneWidth (c # cs)"
  from DecodeRuneWidth_bounds [of c cs] have w: "?w - 1 \<le> length cs" by linarith
  have same: "DecodeRuneWidth (c # cs @ x # t) = ?w"
    by (rule DecodeRuneWidth_append_ascii [OF 2(2)])
  from w have "take (?w - 1) (cs @ x # t) = take (?w - 1) cs"
    and "drop (?w - 1) (cs @ x # t) = drop (?w - 1) cs @ x # t"
    by simp_all
  with same 2(1) [OF 2(2)] show ?case
    by (simp del: runes.simps(2) add: runes.simps(2) [of c cs] runes.simps(2) [of c "cs @ x # t"])
qed

lemma concat_runes: "concat (runes s) = s"
  by (induction s rule: runes.induct) simp_all

lemma runes_nonempty: "r \<in> set (runes s) \<Longrightarrow> r \<noteq> []"
  by (induction s rule: runes.induct) auto

lemma visible7Bit_kept: "kept (visible7Bit r)"
  by (auto simp: visible7Bit_def kept_def byte_def split: list.splits)

lemma visible7Bit_single_kept: "kept c \<Longrightarrow> visible7Bit [c] = c"
  by (simp add: visible7Bit_def kept_def)

lemma visible7Bit_space:
  "asciiSpace (visible7Bit r) \<Longrightarrow> r = [visible7Bit r]"
proof -
  assume a: "asciiSpace (visible7Bit r)"
  have q: "\<not> asciiSpace (CHR ''?'')" by (simp add: asciiSpace_def byte_def)
  with a show ?thesis
    by (auto simp: visible7Bit_def split: list.splits if_splits)
qed

lemma keepVisible7Bit_Nil [simp]: "keepVisible7Bit [] = []"
  by (simp add: keepVisible7Bit_def)

lemma keepVisible7Bit_Nil_iff: "keepVisible7Bit s = [] \<longleftrightarrow> s = []"
  by (cases s) (simp_all add: keepVisible7Bit_def)

lemma keepVisible7Bit_ascii:
  "byte c < 0x80 \<Longrightarrow> keepVisible7Bit (c # cs) = visible7Bit [c] # keepVisible7Bit cs"
  by (simp add: keepVisible7Bit_def runes_ascii del: runes.simps)

lemma keepVisible7Bit_append_ascii:
  "byte x < 0x80 \<Longrightarrow> keepVisible7Bit (s @ x # t) = keepVisible7Bit s @ keepVisible7Bit (x # t)"
  by (simp add: keepVisible7Bit_def runes_append_ascii del: runes.simps)

lemma keepVisible7Bit_kept: "\<forall>c \<in> set (keepVisible7Bit s). kept c"
  by (auto simp: keepVisible7Bit_def visible7Bit_kept)

lemma kept_ascii: "kept c \<Longrightarrow> byte c < 0x80"
  by (simp add: kept_def)

lemma keepVisible7Bit_fixed: "\<forall>c \<in> set s. kept c \<Longrightarrow> keepVisible7Bit s = s"
  by (induction s) (simp_all add: keepVisible7Bit_ascii kept_ascii visible7Bit_single_kept)

lemma keepVisible7Bit_head:
  assumes "keepVisible7Bit s = c # r" and "asciiSpace c"
  shows "\<exists>s'. s = c # s'"
proof (cases s)
  case Nil
  with assms show ?thesis by simp
next
  case (Cons x xs)
  let ?r = "x # take (DecodeRuneWidth (x # xs) - 1) xs"
  from assms(1) Cons have v: "visible7Bit ?r = c" by (simp add: keepVisible7Bit_def)
  with assms(2) have "asciiSpace (visible7Bit ?r)" by (simp only:)
  then have "?r = [visible7Bit ?r]" by (rule visible7Bit_space)
  then have "x = c" unfolding v by (simp only: list.inject)
  with Cons show ?thesis by simp
qed

lemma keepVisible7Bit_last:
  "s \<noteq> [] \<Longrightarrow> 0x80 \<le> byte (last s) \<Longrightarrow> last (keepVisible7Bit s) = CHR ''?''"
proof (induction s rule: runes.induct)
  case 1
  then show ?case by simp
next
  case (2 c cs)
  let ?w = "DecodeRuneWidth (c # cs)"
  have unfold: "keepVisible7Bit (c # cs)
      = visible7Bit (c # take (?w - 1) cs) # keepVisible7Bit (drop (?w - 1) cs)"
    by (simp add: keepVisible7Bit_def)
  show ?case
  proof (cases "drop (?w - 1) cs = []")
    case True
    then have all: "take (?w - 1) cs = cs" by simp
    have "visible7Bit (c # cs) = CHR ''?''"
    proof (cases cs)
      case Nil
      with 2(3) show ?thesis by (simp add: visible7Bit_def)
    next
      case (Cons d ds)
      then show ?thesis by (simp add: visible7Bit_def)
    qed
    with unfold True all show ?thesis by simp
  next
    case False
    then have "cs \<noteq> []" by auto
    with False have "last (c # cs) = last (drop (?w - 1) cs)" by simp
    with 2 False have "last (keepVisible7Bit (drop (?w - 1) cs)) = CHR ''?''" by simp
    with unfold False show ?thesis by (simp add: keepVisible7Bit_Nil_iff)
  qed
qed

lemma keepVisible7Bit_newline:
  assumes "newline \<in> set (keepVisible7Bit s)"
  shows "newline \<in> set s"
proof -
  from assms obtain r where r: "r \<in> set (runes s)" "visible7Bit r = newline"
    by (auto simp: keepVisible7Bit_def)
  with asciiSpace_newline visible7Bit_space [of r] have "r = [newline]" by simp
  with r(1) have "\<exists>x \<in> set (runes s). newline \<in> set x"
    by (intro bexI [of _ r]) simp_all
  then have "newline \<in> set (concat (runes s))" by simp
  then show ?thesis by (simp add: concat_runes)
qed

lemma kept_newline: "kept newline"
  by (simp add: kept_def newline_def byte_def asciiSpace_def)

lemma kept_space: "kept (CHR '' '')"
  by (simp add: kept_def byte_def)

lemma not_kept_high: "0x80 \<le> byte c \<Longrightarrow> \<not> kept c"
  by (simp add: kept_def)

lemma trimmed_keepVisible7Bit:
  assumes "trimmed s"
  shows "trimmed (keepVisible7Bit s)"
proof (rule trimmedI)
  fix p assume p: "p \<in> set spaceRunes"
  have high: False if "2 \<le> length p \<and> (\<forall>c \<in> set p. 0x80 \<le> byte c)" "set p \<subseteq> set (keepVisible7Bit s)"
  proof -
    from that(1) obtain c where "c \<in> set p" "0x80 \<le> byte c" by (cases p) auto
    with that(2) keepVisible7Bit_kept [of s] not_kept_high show False by blast
  qed
  show "\<not> prefix p (keepVisible7Bit s)"
  proof
    assume pre: "prefix p (keepVisible7Bit s)"
    from white_shape [OF white p] show False
    proof
      assume "\<exists>c. p = [c] \<and> asciiSpace c"
      then obtain c where c: "p = [c]" "asciiSpace c" by blast
      with pre obtain r where "keepVisible7Bit s = c # r" by (cases "keepVisible7Bit s") auto
      from keepVisible7Bit_head [OF this c(2)] obtain s' where "s = c # s'" by blast
      with trimmed_front [OF assms p] c show False by simp
    next
      assume "2 \<le> length p \<and> (\<forall>c \<in> set p. 0x80 \<le> byte c)"
      moreover from pre have "set p \<subseteq> set (keepVisible7Bit s)" by (rule set_mono_prefix)
      ultimately show False by (rule high)
    qed
  qed
  show "\<not> suffix p (keepVisible7Bit s)"
  proof
    assume suf: "suffix p (keepVisible7Bit s)"
    from white_shape [OF white p] show False
    proof
      assume "\<exists>c. p = [c] \<and> asciiSpace c"
      then obtain c where c: "p = [c]" "asciiSpace c" by blast
      with suf obtain r where r: "keepVisible7Bit s = r @ [c]" by (auto simp: suffix_def)
      then have "s \<noteq> []" by auto
      then obtain s' x where s: "s = s' @ [x]" by (cases s rule: rev_cases) auto
      have q: "c \<noteq> CHR ''?''" using c(2) by (auto simp: asciiSpace_def byte_def)
      show False
      proof (cases "byte x < 0x80")
        case True
        from keepVisible7Bit_append_ascii [OF True, of s' "[]"] s r
        have "visible7Bit [x] = c" by (simp add: keepVisible7Bit_ascii True)
        with q have "x = c" by (auto simp: visible7Bit_def split: if_splits)
        with s trimmed_end [OF assms p] c show False by (simp add: suffix_def)
      next
        case False
        with s keepVisible7Bit_last [of s] have "last (keepVisible7Bit s) = CHR ''?''" by simp
        with r q show False by simp
      qed
    next
      assume "2 \<le> length p \<and> (\<forall>c \<in> set p. 0x80 \<le> byte c)"
      moreover from suf have "set p \<subseteq> set (keepVisible7Bit s)" by (rule set_mono_suffix)
      ultimately show False by (rule high)
    qed
  qed
qed

lemma keepVisible7Bit_joinLines:
  "keepVisible7Bit (joinLines ts) = joinLines (map keepVisible7Bit ts)"
proof (induction ts)
  case Nil
  show ?case by (simp add: joinLines_def)
next
  case (Cons t ts)
  show ?case
  proof (cases "ts = []")
    case True
    then show ?thesis by (simp add: joinLines_Cons)
  next
    case False
    have "keepVisible7Bit (t @ newline # joinLines ts)
          = keepVisible7Bit t @ newline # keepVisible7Bit (joinLines ts)"
      by (simp add: keepVisible7Bit_append_ascii [OF newline_ascii]
          keepVisible7Bit_ascii [OF newline_ascii] visible7Bit_single_kept [OF kept_newline])
    with False Cons show ?thesis by (simp add: joinLines_Cons)
  qed
qed

lemma normalText_keepVisible7Bit:
  assumes "normalText z"
  shows "normalText (keepVisible7Bit z)"
proof -
  from assms obtain ts where ts: "linesNormal ts" "z = joinLines ts"
    by (auto simp: normalText_def)
  have "linesNormal (map keepVisible7Bit ts)"
  proof (cases "ts = []")
    case True
    then show ?thesis by (simp add: linesNormal_def)
  next
    case False
    with ts(1) have each: "\<forall>t \<in> set ts. trimmed t \<and> newline \<notin> set t"
      and ends: "hd ts \<noteq> []" "last ts \<noteq> []"
      by (auto simp: linesNormal_def list_all_iff)
    from each have "list_all (\<lambda>t. trimmed t \<and> newline \<notin> set t) (map keepVisible7Bit ts)"
      using trimmed_keepVisible7Bit keepVisible7Bit_newline by (auto simp: list_all_iff)
    moreover from False ends have "hd (map keepVisible7Bit ts) \<noteq> []" "last (map keepVisible7Bit ts) \<noteq> []"
      by (simp_all add: hd_map last_map keepVisible7Bit_Nil_iff)
    ultimately show ?thesis by (simp add: linesNormal_def)
  qed
  with ts(2) show ?thesis
    unfolding normalText_def by (metis keepVisible7Bit_joinLines)
qed

text \<open>Steps 2, 3 and 4 together.\<close>

lemma steps234_normalText:
  assumes "normalText z"
  shows "normalText (steps234 lint z)"
proof -
  have s2: "normalText (Replace z [newline] '';'')" if "normalText z" for z
    using that by (simp add: Replace_newline normalText_single trimmed_map_newline
        normalText_trimmed no_newline_map del: set_map)
  have s4: "normalText (compressSpaces z)" if "normalText z" for z
    using that by (simp add: normalText_single trimmed_compressSpaces normalText_trimmed
        no_newline_compressSpaces)
  show ?thesis
    unfolding steps234_def Let_def using assms s2 s4 normalText_keepVisible7Bit by simp
qed

lemma steps234_take:
  fixes lint x k
  defines "y \<equiv> take k (steps234 lint x)"
  shows "steps234 lint y = y"
proof -
  have a: "newline \<notin> set y" if "CompressToSingleLine lint"
  proof -
    have n2: "newline \<notin> set (Replace x [newline] '';'')"
      using no_newline_map [of x] by (simp only: Replace_newline not_False_eq_True)
    have n3: "newline \<notin> set (keepVisible7Bit z)" if "newline \<notin> set z" for z
      using that keepVisible7Bit_newline by blast
    have "newline \<notin> set (steps234 lint x)"
      using that n2 n3 [OF n2] no_newline_compressSpaces
      by (cases "KeepVisible7BitCharOnly lint"; cases "CompressSpaces lint")
         (simp_all add: steps234_def Let_def)
    then show ?thesis unfolding y_def by (meson in_set_takeD)
  qed
  have b: "\<forall>c \<in> set y. kept c" if "KeepVisible7BitCharOnly lint"
  proof -
    have "\<forall>c \<in> set (steps234 lint x). kept c"
      unfolding steps234_def Let_def using that keepVisible7Bit_kept set_compressSpaces kept_space
      by (auto split: if_splits)
    then show ?thesis unfolding y_def by (meson in_set_takeD)
  qed
  have c: "compressSpaces y = y" if "CompressSpaces lint"
    unfolding y_def steps234_def Let_def using that by (simp add: compressSpaces_take)
  have r2: "Replace y [newline] '';'' = y" if "CompressToSingleLine lint"
    using a [OF that] unfolding Replace_newline by (intro map_idI) auto
  have r3: "keepVisible7Bit y = y" if "KeepVisible7BitCharOnly lint"
    using b [OF that] by (rule keepVisible7Bit_fixed)
  show ?thesis
    unfolding steps234_def Let_def using r2 r3 c by simp
qed

lemma lintText_steps:
  "BeginPosition lint \<le> 0 \<Longrightarrow>
   lintText lint x = cutTrailing (MaxLength lint) (steps234 lint (if TrimSpaces lint then trimLines x else x))"
  by (simp add: lintText_def steps234_def Let_def cutLeading_def)

lemma cutTrailing_take: "\<exists>k. cutTrailing m s = take k s"
proof (cases "m > 0 \<and> int (length s) > m")
  case True
  then show ?thesis by (auto simp: cutTrailing_def)
next
  case False
  then have "cutTrailing m s = take (length s) s" by (auto simp: cutTrailing_def)
  then show ?thesis ..
qed

lemma cutTrailing_idem: "cutTrailing m (cutTrailing m s) = cutTrailing m s"
  by (auto simp: cutTrailing_def)

lemma lintText_twice:
  assumes "BeginPosition lint \<le> 0" and "\<not> TrimSpaces lint \<or> MaxLength lint \<le> 0"
  shows "lintText lint (lintText lint x) = lintText lint x"
proof (cases "TrimSpaces lint")
  case False
  let ?y = "cutTrailing (MaxLength lint) (steps234 lint x)"
  obtain k where k: "?y = take k (steps234 lint x)"
    using cutTrailing_take by blast
  have "steps234 lint (take k (steps234 lint x)) = take k (steps234 lint x)"
    by (rule steps234_take)
  then have fixed: "steps234 lint ?y = ?y"
    by (simp only: k)
  from False assms(1) have first: "lintText lint x = ?y"
    by (simp add: lintText_steps)
  from False assms(1) have "lintText lint ?y = cutTrailing (MaxLength lint) (steps234 lint ?y)"
    by (simp add: lintText_steps)
  also have "\<dots> = ?y"
    by (simp only: fixed cutTrailing_idem)
  finally show ?thesis
    by (simp only: first)
next
  case True
  with assms(2) have m: "MaxLength lint \<le> 0" by simp
  let ?y = "steps234 lint (trimLines x)"
  have "normalText ?y" by (intro steps234_normalText trimLines_normalText)
  then have "trimLines ?y = ?y" by (rule trimLines_fixed)
  moreover from steps234_take [of lint "length ?y" "trimLines x"] have "steps234 lint ?y = ?y" by simp
  ultimately show ?thesis
    using True m assms(1) by (simp add: lintText_steps cutTrailing_def)
qed

text \<open>On a string of ASCII bytes \<open>TrimSpace\<close> drops the ASCII white space at both ends.\<close>

lemma trimLeftBy_dropWhile:
  assumes white: "whitePatterns ps" and ascii: "\<forall>c \<in> set s. byte c < 0x80"
  shows "trimLeftBy ps s = dropWhile asciiSpace s"
  using ascii
proof (induction s)
  case Nil
  show ?case by simp
next
  case (Cons c cs)
  show ?case
  proof (cases "asciiSpace c")
    case True
    with Cons show ?thesis
      by (simp add: trimLeftBy_ascii [OF white])
  next
    case False
    have "\<not> prefix p (c # cs)" if p: "p \<in> set ps" for p
    proof
      assume pre: "prefix p (c # cs)"
      from whitePatterns_nonempty [OF white p] obtain d q where q: "p = d # q"
        by (cases p) auto
      with pre have d: "d = c" by simp
      from white p have "(\<exists>c. p = [c] \<and> asciiSpace c) \<or> (2 \<le> length p \<and> (\<forall>c \<in> set p. 0x80 \<le> byte c))"
        by (simp add: whitePatterns_def)
      then show False
      proof
        assume "\<exists>c. p = [c] \<and> asciiSpace c"
        with q d False show False by simp
      next
        assume "2 \<le> length p \<and> (\<forall>c \<in> set p. 0x80 \<le> byte c)"
        with q d have "0x80 \<le> byte c" by simp
        moreover from Cons.prems have "byte c < 0x80" by simp
        ultimately show False by simp
      qed
    qed
    then have "trimLeftBy ps (c # cs) = c # cs"
      by (intro trimLeftBy_fixed) blast
    with False show ?thesis by simp
  qed
qed

lemma TrimSpace_ascii:
  assumes "\<forall>c \<in> set s. byte c < 0x80"
  shows "TrimSpace s = rev (dropWhile asciiSpace (rev (dropWhile asciiSpace s)))"
proof -
  have left: "TrimLeftSpace s = dropWhile asciiSpace s"
    unfolding TrimLeftSpace_def by (rule trimLeftBy_dropWhile [OF white assms])
  have "set (dropWhile asciiSpace s) \<subseteq> set s"
    by (rule set_dropWhileD [THEN subsetI])
  with assms have "\<forall>c \<in> set (rev (dropWhile asciiSpace s)). byte c < 0x80"
    by auto
  then have "trimLeftBy (map rev spaceRunes) (rev (dropWhile asciiSpace s))
             = dropWhile asciiSpace (rev (dropWhile asciiSpace s))"
    by (rule trimLeftBy_dropWhile [OF white_rev])
  then show ?thesis
    by (simp only: TrimSpace_def TrimRightSpace_def left)
qed

section \<open>Properties of \<open>LintText\<close>\<close>

text \<open>
  C4. \<open>LintText.Transform\<close> run a second time with the same configuration leaves the
  result of the first run as it is, and so its \<open>CombinedOutput\<close>, for every configuration
  that cuts no leading bytes (\<open>BeginPosition\<close> not above 0) and that does not both trim
  (\<open>TrimSpaces\<close>) and cut to a length (\<open>MaxLength\<close> above 0), and for every result.
  The four rewriting steps may be on or off in any combination.
\<close>

theorem LintText_Transform_twice:
  assumes "BeginPosition lint \<le> 0" and "\<not> TrimSpaces lint \<or> MaxLength lint \<le> 0"
  shows "fst (LintText_Transform lint (fst (LintText_Transform lint result)))
         = fst (LintText_Transform lint result)"
  using lintText_twice [OF assms] by (simp add: LintText_Transform_def)

lemmas lint_eval =
  LintText_Transform_def lintText_def trimLines_def Replace_def keepVisible7Bit_def
  visible7Bit_def HasPrefix_def DecodeRuneWidth_def continuation_def cutLeading_def
  cutTrailing_def TrimSpace_def TrimRightSpace_def TrimLeftSpace_def spaceRunes_def
  trimLeftBy.simps asciiSpace_def byte_def newline_def Let_def

theorem LintText_Transform_twice_witness:
  "CombinedOutput (fst (LintText_Transform exampleLintText
      (fst (LintText_Transform exampleLintText exampleResult)))) = ''a b;?? c''"
proof -
  have once: "CombinedOutput (fst (LintText_Transform exampleLintText exampleResult)) = ''a b;?? c''"
    by (simp add: exampleLintText_def exampleResult_def lint_eval)
  have "BeginPosition exampleLintText \<le> 0"
    and "\<not> TrimSpaces exampleLintText \<or> MaxLength exampleLintText \<le> 0"
    by (simp_all add: exampleLintText_def)
  from LintText_Transform_twice [OF this, of exampleResult] once show ?thesis
    by (simp only:)
qed

text \<open>With a \<open>BeginPosition\<close> above 0 every run cuts leading bytes again: of \<open>abc\<close> the
  first run leaves \<open>bc\<close> and the second \<open>c\<close>.\<close>

theorem LintText_Transform_BeginPosition_counterexample:
  "CombinedOutput (fst (LintText_Transform cutFirstByte abcResult)) = ''bc''
   \<and> CombinedOutput (fst (LintText_Transform cutFirstByte
                          (fst (LintText_Transform cutFirstByte abcResult)))) = ''c''"
  by (simp add: cutFirstByte_def abcResult_def LintText_Transform_def lintText_def
      cutLeading_def cutTrailing_def)

text \<open>With \<open>TrimSpaces\<close> and a \<open>MaxLength\<close> above 0 the cut can end in white space, which
  the next run trims: of \<open>a b\<close> the first run leaves \<open>a\<close> and a space, the second
  \<open>a\<close>.\<close>

lemma LintText_Transform_trim_and_cut:
  "lintText trimAndCut ''a b'' = ''a '' \<and> lintText trimAndCut ''a '' = ''a''"
  by (simp add: trimAndCut_def lint_eval)

section \<open>Properties of the command filters\<close>

lemma matchLines_no_match:
  "\<forall>l \<in> set ls. map_of (Shortcuts pin) (TrimSpace l) = None
        \<and> \<not> (length (PIN pin) < length (TrimSpace l)
               \<and> take (length (PIN pin)) (TrimSpace l) = PIN pin)
   \<Longrightarrow> matchLines pin cmd ls = (cmd, Some ErrPINAndShortcutNotFound)"
  by (induction ls) (auto simp: ConstantTimeCompare_def)

lemma matchLines_first_match:
  "i < length ls
   \<Longrightarrow> map_of (Shortcuts pin) (TrimSpace (ls ! i)) \<noteq> None
        \<or> (length (PIN pin) < length (TrimSpace (ls ! i))
            \<and> take (length (PIN pin)) (TrimSpace (ls ! i)) = PIN pin)
   \<Longrightarrow> \<forall>j < i. map_of (Shortcuts pin) (TrimSpace (ls ! j)) = None
        \<and> \<not> (length (PIN pin) < length (TrimSpace (ls ! j))
               \<and> take (length (PIN pin)) (TrimSpace (ls ! j)) = PIN pin)
   \<Longrightarrow> matchLines pin cmd ls =
        (cmd\<lparr>Content := (case map_of (Shortcuts pin) (TrimSpace (ls ! i)) of
                             Some shortcut \<Rightarrow> shortcut
                           | None \<Rightarrow> drop (length (PIN pin)) (TrimSpace (ls ! i)))\<rparr>, None)"
proof (induction ls arbitrary: i)
  case Nil
  then show ?case by simp
next
  case (Cons l ls)
  show ?case
  proof (cases i)
    case 0
    with Cons.prems show ?thesis
      by (auto simp: ConstantTimeCompare_def split: option.splits)
  next
    case (Suc k)
    with Cons.prems have head: "map_of (Shortcuts pin) (TrimSpace l) = None"
      "\<not> (length (PIN pin) < length (TrimSpace l)
          \<and> take (length (PIN pin)) (TrimSpace l) = PIN pin)"
      by auto
    have "matchLines pin cmd ls =
        (cmd\<lparr>Content := (case map_of (Shortcuts pin) (TrimSpace (ls ! k)) of
                             Some shortcut \<Rightarrow> shortcut
                           | None \<Rightarrow> drop (length (PIN pin)) (TrimSpace (ls ! k)))\<rparr>, None)"
      using Cons.prems Suc by (intro Cons.IH) auto
    with head Suc show ?thesis
      by (auto simp: ConstantTimeCompare_def cong: option.case_cong)
  qed
qed

text \<open>
  C1. With a PIN or a shortcut configured, \<open>PINAndShortcuts.Transform\<close> goes through the
  trimmed lines of the command in order. A line matches when it is a key of the shortcut
  map, or when it is strictly longer than the PIN and begins with the PIN. If no line
  matches, the command comes back with the error \<open>ErrPINAndShortcutNotFound\<close>. Otherwise
  the first matching line decides the result, which carries no error: the mapped value
  when the line is a shortcut (the shortcut is looked up first), and else the rest of the
  line behind the PIN.
\<close>

theorem PINAndShortcuts_Transform_first_matching_line:
  "PIN pin \<noteq> [] \<or> Shortcuts pin \<noteq> [] \<Longrightarrow>
   (let ls = map TrimSpace (Lines cmd);
        isShortcut = (\<lambda>line. map_of (Shortcuts pin) line \<noteq> None);
        hasPIN = (\<lambda>line. length (PIN pin) < length line \<and> take (length (PIN pin)) line = PIN pin)
    in ((\<forall>line \<in> set ls. \<not> isShortcut line \<and> \<not> hasPIN line)
          \<longrightarrow> PINAndShortcuts_Transform pin cmd = (cmd, Some ErrPINAndShortcutNotFound))
     \<and> (\<forall>i < length ls.
           (isShortcut (ls ! i) \<or> hasPIN (ls ! i))
           \<and> (\<forall>j < i. \<not> isShortcut (ls ! j) \<and> \<not> hasPIN (ls ! j))
          \<longrightarrow> PINAndShortcuts_Transform pin cmd =
                (cmd\<lparr>Content := (case map_of (Shortcuts pin) (ls ! i) of
                                     Some shortcut \<Rightarrow> shortcut
                                   | None \<Rightarrow> drop (length (PIN pin)) (ls ! i))\<rparr>, None)))"
proof -
  assume configured: "PIN pin \<noteq> [] \<or> Shortcuts pin \<noteq> []"
  then have unfold: "PINAndShortcuts_Transform pin cmd = matchLines pin cmd (Lines cmd)"
    by (auto simp: PINAndShortcuts_Transform_def)
  have none: "PINAndShortcuts_Transform pin cmd = (cmd, Some ErrPINAndShortcutNotFound)"
    if "\<forall>line \<in> set (map TrimSpace (Lines cmd)).
          \<not> map_of (Shortcuts pin) line \<noteq> None
          \<and> \<not> (length (PIN pin) < length line \<and> take (length (PIN pin)) line = PIN pin)"
    using that unfolding unfold by (intro matchLines_no_match) auto
  have first: "PINAndShortcuts_Transform pin cmd =
        (cmd\<lparr>Content := (case map_of (Shortcuts pin) (map TrimSpace (Lines cmd) ! i) of
                             Some shortcut \<Rightarrow> shortcut
                           | None \<Rightarrow> drop (length (PIN pin)) (map TrimSpace (Lines cmd) ! i))\<rparr>, None)"
    if "i < length (map TrimSpace (Lines cmd))"
      and "map_of (Shortcuts pin) (map TrimSpace (Lines cmd) ! i) \<noteq> None
           \<or> (length (PIN pin) < length (map TrimSpace (Lines cmd) ! i)
               \<and> take (length (PIN pin)) (map TrimSpace (Lines cmd) ! i) = PIN pin)"
      and "\<forall>j < i. \<not> map_of (Shortcuts pin) (map TrimSpace (Lines cmd) ! j) \<noteq> None
           \<and> \<not> (length (PIN pin) < length (map TrimSpace (Lines cmd) ! j)
               \<and> take (length (PIN pin)) (map TrimSpace (Lines cmd) ! j) = PIN pin)"
    for i
  proof -
    from that(1) have len: "i < length (Lines cmd)" by simp
    show ?thesis
      unfolding unfold using that len
      by (simp add: matchLines_first_match [where i = i and ls = "Lines cmd"]
            cong: option.case_cong)
  qed
  show ?thesis
    unfolding Let_def using none first by blast
qed

lemmas string_eval =
  TrimSpace_ascii asciiSpace_def byte_def newline_def

theorem PINAndShortcuts_Transform_first_matching_line_witness:
  "PINAndShortcuts_Transform
     \<lparr>PIN = ''verysecret'', Shortcuts = [(''hi'', ''.s echo hi'')]\<rparr>
     \<lparr>DaemonName = ''httpd'', TimeoutSec = 10,
      Content = ''bad'' @ [newline] @ ''  verysecret.s ls '' @ [newline] @ ''hi''\<rparr>
   = (\<lparr>DaemonName = ''httpd'', TimeoutSec = 10, Content = ''.s ls''\<rparr>, None)"
proof -
  let ?pin = "\<lparr>PIN = ''verysecret'', Shortcuts = [(''hi'', ''.s echo hi'')]\<rparr>"
  let ?cmd = "\<lparr>DaemonName = ''httpd'', TimeoutSec = 10,
      Content = ''bad'' @ [newline] @ ''  verysecret.s ls '' @ [newline] @ ''hi''\<rparr>"
  have configured: "PIN ?pin \<noteq> [] \<or> Shortcuts ?pin \<noteq> []"
    by simp
  have ls: "map TrimSpace (Lines ?cmd) = [''bad'', ''verysecret.s ls'', ''hi'']"
    by (simp add: Lines_def string_eval)
  note second_line =
    PINAndShortcuts_Transform_first_matching_line
      [OF configured, where cmd = ?cmd, unfolded Let_def ls, THEN conjunct2, rule_format, of 1]
  have "PINAndShortcuts_Transform ?pin ?cmd =
        (?cmd\<lparr>Content := (case map_of (Shortcuts ?pin) ([''bad'', ''verysecret.s ls'', ''hi''] ! 1) of
                             Some shortcut \<Rightarrow> shortcut
                           | None \<Rightarrow> drop (length (PIN ?pin)) ([''bad'', ''verysecret.s ls'', ''hi''] ! 1))\<rparr>,
         None)"
    by (rule second_line) (simp_all add: less_Suc_eq)
  then show ?thesis
    by simp
qed

text \<open>
  C7. When both the PIN and the shortcut map are empty, \<open>PINAndShortcuts.Transform\<close>
  fails for every command, and the error it returns is another error value, with another
  text, than the credential error \<open>ErrPINAndShortcutNotFound\<close>.
\<close>

theorem PINAndShortcuts_Transform_unconfigured:
  "PIN pin = [] \<Longrightarrow> Shortcuts pin = [] \<Longrightarrow>
   (\<exists>e. PINAndShortcuts_Transform pin cmd = (Command_zero, Some e)
        \<and> e \<noteq> ErrPINAndShortcutNotFound
        \<and> Error_text e \<noteq> Error_text ErrPINAndShortcutNotFound)"
  by (simp add: PINAndShortcuts_Transform_def)

theorem PINAndShortcuts_Transform_unconfigured_witness:
  "\<exists>e. PINAndShortcuts_Transform \<lparr>PIN = [], Shortcuts = []\<rparr>
          \<lparr>DaemonName = ''smsd'', TimeoutSec = 14, Content = ''verysecret.s ls''\<rparr>
        = (Command_zero, Some e)
      \<and> e \<noteq> ErrPINAndShortcutNotFound
      \<and> Error_text e \<noteq> Error_text ErrPINAndShortcutNotFound"
proof -
  have no_pin: "PIN \<lparr>PIN = [], Shortcuts = []\<rparr> = []"
    and no_shortcut: "Shortcuts \<lparr>PIN = [], Shortcuts = []\<rparr> = []"
    by simp_all
  show ?thesis
    by (rule PINAndShortcuts_Transform_unconfigured [OF no_pin no_shortcut])
qed

text \<open>
  C10. Whenever \<open>PINAndShortcuts.Transform\<close> succeeds, and whenever
  \<open>TranslateSequences.Transform\<close> returns (it always does, without an error), the command
  returned is the input command with at most its Content replaced: TimeoutSec, DaemonName
  and any further field are those of the input.
\<close>

theorem command_filters_change_Content_only:
  "(PINAndShortcuts_Transform pin cmd = (ret, None) \<longrightarrow> ret = cmd\<lparr>Content := Content ret\<rparr>)
   \<and> (\<exists>ret'. TranslateSequences_Transform tr cmd = (ret', None)
          \<and> ret' = cmd\<lparr>Content := Content ret'\<rparr>)"
proof
  have "ret = cmd\<lparr>Content := Content ret\<rparr>" if "matchLines pin cmd ls = (ret, None)" for ls
    using that
    by (induction ls) (auto simp: Let_def split: option.splits if_splits)
  then show "PINAndShortcuts_Transform pin cmd = (ret, None) \<longrightarrow> ret = cmd\<lparr>Content := Content ret\<rparr>"
    by (auto simp: PINAndShortcuts_Transform_def)
next
  show "\<exists>ret'. TranslateSequences_Transform tr cmd = (ret', None)
          \<and> ret' = cmd\<lparr>Content := Content ret'\<rparr>"
    by (simp add: TranslateSequences_Transform_def)
qed

theorem command_filters_change_Content_only_witness:
  "PINAndShortcuts_Transform \<lparr>PIN = ''verysecret'', Shortcuts = []\<rparr>
     \<lparr>DaemonName = ''httpd'', TimeoutSec = 10, Content = ''verysecret.s ls''\<rparr>
     = (\<lparr>DaemonName = ''httpd'', TimeoutSec = 10, Content = ''.s ls''\<rparr>, None)
   \<and> \<lparr>DaemonName = ''httpd'', TimeoutSec = 10, Content = ''.s ls''\<rparr>
     = \<lparr>DaemonName = ''httpd'', TimeoutSec = 10, Content = ''verysecret.s ls''\<rparr>
         \<lparr>Content := Content \<lparr>DaemonName = ''httpd'', TimeoutSec = 10, Content = ''.s ls''\<rparr>\<rparr>
   \<and> (\<exists>ret'. TranslateSequences_Transform \<lparr>Sequences = [[''alpha'', ''beta'']]\<rparr>
            \<lparr>DaemonName = ''httpd'', TimeoutSec = 10, Content = ''verysecret.s ls''\<rparr> = (ret', None)
          \<and> ret' = \<lparr>DaemonName = ''httpd'', TimeoutSec = 10, Content = ''verysecret.s ls''\<rparr>
                   \<lparr>Content := Content ret'\<rparr>)"
proof -
  have run: "PINAndShortcuts_Transform \<lparr>PIN = ''verysecret'', Shortcuts = []\<rparr>
     \<lparr>DaemonName = ''httpd'', TimeoutSec = 10, Content = ''verysecret.s ls''\<rparr>
     = (\<lparr>DaemonName = ''httpd'', TimeoutSec = 10, Content = ''.s ls''\<rparr>, None)"
    by (simp add: PINAndShortcuts_Transform_def Lines_def ConstantTimeCompare_def string_eval)
  from command_filters_change_Content_only
    [of "\<lparr>PIN = ''verysecret'', Shortcuts = []\<rparr>"
        "\<lparr>DaemonName = ''httpd'', TimeoutSec = 10, Content = ''verysecret.s ls''\<rparr>"
        "\<lparr>DaemonName = ''httpd'', TimeoutSec = 10, Content = ''.s ls''\<rparr>"
        "\<lparr>Sequences = [[''alpha'', ''beta'']]\<rparr>"]
  show ?thesis
    using run by blast
qed

section \<open>Properties of the command processor\<close>

lemma RateLimit_Add_parameters:
  "RateLimit_Add limit key = (admitted, limit')
   \<Longrightarrow> UnitSecs limit' = UnitSecs limit \<and> MaxCount limit' = MaxCount limit"
  by (auto simp: RateLimit_Add_def split: if_splits)

lemma finishProcess_processor: "processor (finishProcess proc run v) = proc"
  by (simp add: finishProcess_def panicked_def Let_def split: option.splits)

lemma Process_processor:
  "processor (Process imp proc cmd run) = initialiseOnce proc
   \<or> (\<exists>limit admitted limit'. rateLimit (initialiseOnce proc) = Some limit
         \<and> RateLimit_Add limit ''instance'' = (admitted, limit')
         \<and> processor (Process imp proc cmd run) = (initialiseOnce proc)\<lparr>rateLimit := Some limit'\<rparr>)"
  by (auto simp: Process_def Let_def panicked_def finishProcess_processor
           split: option.splits prod.splits bool.splits sum.splits)

lemma initialiseOnce_fresh:
  assumes "\<not> initOnce proc" and "rateLimit proc = None"
  shows "rateLimit (initialiseOnce proc) =
           Some \<lparr>UnitSecs = 1,
                 MaxCount = (if 1 \<le> MaxCmdPerSec proc \<and> MaxCmdPerSec proc \<le> 1000
                             then MaxCmdPerSec proc else 1000),
                 counter = (\<lambda>key. 0)\<rparr>"
    and "MaxCmdPerSec (initialiseOnce proc) =
           (if 1 \<le> MaxCmdPerSec proc \<and> MaxCmdPerSec proc \<le> 1000 then MaxCmdPerSec proc else 1000)"
proof -
  show "rateLimit (initialiseOnce proc) =
           Some \<lparr>UnitSecs = 1,
                 MaxCount = (if 1 \<le> MaxCmdPerSec proc \<and> MaxCmdPerSec proc \<le> 1000
                             then MaxCmdPerSec proc else 1000),
                 counter = (\<lambda>key. 0)\<rparr>"
  proof (cases "MaxCmdPerSec proc < 1 \<or> MaxCmdPerSec proc > 1000")
    case True
    then have "\<not> (1 \<le> MaxCmdPerSec proc \<and> MaxCmdPerSec proc \<le> 1000)" by auto
    with True assms show ?thesis
      by (auto simp: initialiseOnce_def Let_def RateLimit_Initialise_def MaxCmdPerSecHardLimit_def)
  next
    case False
    then have "1 \<le> MaxCmdPerSec proc \<and> MaxCmdPerSec proc \<le> 1000" by auto
    with False assms show ?thesis
      by (auto simp: initialiseOnce_def Let_def RateLimit_Initialise_def MaxCmdPerSecHardLimit_def)
  qed
  show "MaxCmdPerSec (initialiseOnce proc) =
           (if 1 \<le> MaxCmdPerSec proc \<and> MaxCmdPerSec proc \<le> 1000 then MaxCmdPerSec proc else 1000)"
  proof (cases "MaxCmdPerSec proc < 1 \<or> MaxCmdPerSec proc > 1000")
    case True
    then have "\<not> (1 \<le> MaxCmdPerSec proc \<and> MaxCmdPerSec proc \<le> 1000)" by auto
    with True assms show ?thesis
      by (auto simp: initialiseOnce_def Let_def RateLimit_Initialise_def MaxCmdPerSecHardLimit_def)
  next
    case False
    then have "1 \<le> MaxCmdPerSec proc \<and> MaxCmdPerSec proc \<le> 1000" by auto
    with False assms show ?thesis
      by (auto simp: initialiseOnce_def Let_def RateLimit_Initialise_def MaxCmdPerSecHardLimit_def)
  qed
qed

text \<open>
  C5. When the global \<open>EmergencyLockDown\<close> flag is set, \<open>Process\<close> returns a result whose
  error is \<open>ErrEmergencyLockDown\<close>, and the call has no event at all: no command filter, no
  feature and no result filter is invoked, and nothing is logged.
\<close>

theorem Process_EmergencyLockDown:
  "EmergencyLockDown imp \<Longrightarrow>
   returned (Process imp proc cmd runResultFilters) = Some (errorResult (ErrEmergencyLockDown imp))
   \<and> Error (errorResult (ErrEmergencyLockDown imp)) = Some (ErrEmergencyLockDown imp)
   \<and> trace (Process imp proc cmd runResultFilters) = []"
  by (simp add: Process_def Let_def errorResult_def)

text \<open>
  C8 as the code has it. On the first call of \<open>Process\<close> on a processor (the once-only
  initialisation has not run and there is no rate limiter yet) the rate limiter is built
  with a window of one second and with \<open>MaxCount\<close> equal to the configured \<open>MaxCmdPerSec\<close>
  when that lies in [1, 1000], and equal to 1000 otherwise: below 1 as well as above 1000.
  \<open>MaxCmdPerSec\<close> itself is set to the same value.
\<close>

theorem Process_initialises_rate_limit:
  "\<not> initOnce proc \<Longrightarrow> rateLimit proc = None \<Longrightarrow>
   (\<exists>limit. rateLimit (processor (Process imp proc cmd runResultFilters)) = Some limit
      \<and> UnitSecs limit = 1
      \<and> MaxCount limit =
            (if 1 \<le> MaxCmdPerSec proc \<and> MaxCmdPerSec proc \<le> 1000 then MaxCmdPerSec proc else 1000)
      \<and> MaxCmdPerSec (processor (Process imp proc cmd runResultFilters)) = MaxCount limit)"
proof -
  assume fresh: "\<not> initOnce proc" "rateLimit proc = None"
  let ?m = "if 1 \<le> MaxCmdPerSec proc \<and> MaxCmdPerSec proc \<le> 1000 then MaxCmdPerSec proc else 1000"
  define limit0 where "limit0 = \<lparr>UnitSecs = 1, MaxCount = ?m, counter = (\<lambda>key::string. 0::int)\<rparr>"
  have init:
    "rateLimit (initialiseOnce proc) = Some limit0" "UnitSecs limit0 = 1" "MaxCount limit0 = ?m"
    "MaxCmdPerSec (initialiseOnce proc) = ?m"
    using initialiseOnce_fresh [OF fresh] by (simp_all add: limit0_def)
  from Process_processor [of imp proc cmd runResultFilters] show ?thesis
  proof
    assume "processor (Process imp proc cmd runResultFilters) = initialiseOnce proc"
    with init show ?thesis by auto
  next
    assume "\<exists>limit admitted limit'. rateLimit (initialiseOnce proc) = Some limit
         \<and> RateLimit_Add limit ''instance'' = (admitted, limit')
         \<and> processor (Process imp proc cmd runResultFilters)
             = (initialiseOnce proc)\<lparr>rateLimit := Some limit'\<rparr>"
    then obtain limit admitted limit' where
      step: "rateLimit (initialiseOnce proc) = Some limit"
        "RateLimit_Add limit ''instance'' = (admitted, limit')"
        "processor (Process imp proc cmd runResultFilters)
           = (initialiseOnce proc)\<lparr>rateLimit := Some limit'\<rparr>"
      by blast
    from step(1) init(1) have "limit = limit0" by simp
    with RateLimit_Add_parameters [OF step(2)] init
    have "UnitSecs limit' = 1" "MaxCount limit' = ?m" by simp_all
    with step(3) init(4) show ?thesis by simp
  qed
qed

lemma walkCommandFilters_frame:
  "walkCommandFilters fs v = (g, v') \<Longrightarrow>
     v_logCommandContent v' = v_logCommandContent v
   \<and> v_hasOverrideLintText v' = v_hasOverrideLintText v
   \<and> v_overrideLintText v' = v_overrideLintText v
   \<and> v_deferLog v' = v_deferLog v
   \<and> v_deferStats v' = v_deferStats v
   \<and> (g \<longrightarrow> v_ret v' \<noteq> None)
   \<and> (\<not> g \<longrightarrow> v_ret v' = v_ret v)
   \<and> (\<exists>calls. v_events v' = v_events v @ calls
         \<and> (\<forall>e \<in> set calls. \<exists>f c. e = CommandFilterCall f c))"
proof (induction fs arbitrary: v)
  case Nil
  then show ?case by auto
next
  case (Cons f fs)
  obtain c d where t: "CommandFilter_Transform f (v_cmd v) = (c, d)"
    by (cases "CommandFilter_Transform f (v_cmd v)")
  show ?case
  proof (cases d)
    case None
    let ?v = "v\<lparr>v_cmd := c, v_filterDisapproval := None,
                     v_events := v_events v @ [CommandFilterCall f (v_cmd v)]\<rparr>"
    from Cons.prems t None have "walkCommandFilters fs ?v = (g, v')"
      by (simp add: Let_def)
    from Cons.IH [OF this] show ?thesis by auto
  next
    case (Some e)
    with Cons.prems t show ?thesis
      by (auto simp: Let_def)
  qed
qed

lemma walkCommandFilters_apply:
  "walkCommandFilters fs v = (g, v') \<Longrightarrow>
   v_cmd v' = fst (applyCommandFilters fs (v_cmd v))
   \<and> g = (snd (applyCommandFilters fs (v_cmd v)) \<noteq> None)
   \<and> v_filterDisapproval v' =
       (if fs = [] then v_filterDisapproval v else snd (applyCommandFilters fs (v_cmd v)))"
proof (induction fs arbitrary: v)
  case Nil
  then show ?case by auto
next
  case (Cons f fs)
  obtain c d where t: "CommandFilter_Transform f (v_cmd v) = (c, d)"
    by (cases "CommandFilter_Transform f (v_cmd v)")
  show ?case
  proof (cases d)
    case None
    let ?v = "v\<lparr>v_cmd := c, v_filterDisapproval := None,
                     v_events := v_events v @ [CommandFilterCall f (v_cmd v)]\<rparr>"
    from Cons.prems t None have "walkCommandFilters fs ?v = (g, v')"
      by (simp add: Let_def)
    from Cons.IH [OF this] t None show ?thesis by (cases fs) auto
  next
    case (Some e)
    with Cons.prems t show ?thesis
      by (auto simp: Let_def)
  qed
qed

lemma overridePLT_frame:
  "overridePLT proc v = (g, v') \<Longrightarrow>
     v_logCommandContent v' = v_logCommandContent v
   \<and> v_filterDisapproval v' = v_filterDisapproval v
   \<and> v_deferLog v' = v_deferLog v
   \<and> v_deferStats v' = v_deferStats v
   \<and> v_events v' = v_events v
   \<and> (g \<longrightarrow> v_ret v' \<noteq> None)
   \<and> (\<not> g \<longrightarrow> v_ret v' = v_ret v)"
  unfolding overridePLT_def Let_def
  by (auto split: prod.splits bool.splits option.splits if_splits)

lemma lookupFeature_frame:
  "lookupFeature imp fs v = (m, v') \<Longrightarrow>
     v_filterDisapproval v' = v_filterDisapproval v
   \<and> v_deferLog v' = v_deferLog v
   \<and> v_deferStats v' = v_deferStats v
   \<and> v_events v' = v_events v
   \<and> v_ret v' = v_ret v
   \<and> v_hasOverrideLintText v' = v_hasOverrideLintText v
   \<and> v_overrideLintText v' = v_overrideLintText v"
  by (induction fs arbitrary: v) (auto split: prod.splits bool.splits)

lemma initialiseOnce_configuration:
  "Features (initialiseOnce proc) = Features proc"
  "CommandFilters (initialiseOnce proc) = CommandFilters proc"
  "ResultFilters (initialiseOnce proc) = ResultFilters proc"
  by (auto simp: initialiseOnce_def Let_def split: option.splits)

lemma initialiseOnce_rateLimit:
  "initOnce proc \<longrightarrow> rateLimit proc \<noteq> None \<Longrightarrow> rateLimit (initialiseOnce proc) \<noteq> None"
  by (auto simp: initialiseOnce_def Let_def split: option.splits)

lemma lookupFeature_match:
  "lookupFeature imp fs v = (Some (p, f), v') \<Longrightarrow>
   FindAndRemovePrefix (v_cmd v) p = (True, v_cmd v')
   \<and> v_logCommandContent v' =
       (if p = AESDecryptTrigger imp \<or> p = TwoFATrigger imp then hiddenContent
        else v_logCommandContent v)"
proof (induction fs)
  case Nil
  then show ?case by simp
next
  case (Cons pf fs)
  obtain p' f' where pf: "pf = (p', f')" by (cases pf)
  obtain b c where frp: "FindAndRemovePrefix (v_cmd v) p' = (b, c)"
    by (cases "FindAndRemovePrefix (v_cmd v) p'")
  show ?case
  proof (cases b)
    case True
    with Cons.prems pf frp show ?thesis by auto
  next
    case False
    with Cons.prems pf frp have "lookupFeature imp fs v = (Some (p, f), v')" by simp
    then show ?thesis by (rule Cons.IH)
  qed
qed

lemma FindAndRemovePrefix_restore:
  "FindAndRemovePrefix c p = (True, c') \<Longrightarrow> c'\<lparr>Content := Content c\<rparr> = c"
  by (auto simp: FindAndRemovePrefix_def Let_def split: if_splits)

lemma processBody_label:
  assumes body: "processBody imp proc (initialVars cmd) = Inr v"
  shows "v_ret v \<noteq> None"
    and "v_filterDisapproval v = snd (applyCommandFilters (CommandFilters proc) cmd)"
    and "\<forall>e \<in> set (v_events v).
            (\<exists>f c. e = CommandFilterCall f c)
          \<or> e = LoggerInfo (''going to run '' @ v_logCommandContent v)
          \<or> (\<exists>t c. e = FeatureExecuteCall t c
                \<and> (if t = AESDecryptTrigger imp \<or> t = TwoFATrigger imp
                     then v_logCommandContent v = hiddenContent
                     else FindAndRemovePrefix (c\<lparr>Content := v_logCommandContent v\<rparr>) t = (True, c)))"
proof -
  obtain g v1 where walk: "walkCommandFilters (CommandFilters proc) (initialVars cmd) = (g, v1)"
    by (cases "walkCommandFilters (CommandFilters proc) (initialVars cmd)")
  note f1 = walkCommandFilters_frame [OF walk]
  have d1: "v_filterDisapproval v1 = snd (applyCommandFilters (CommandFilters proc) cmd)"
    using walkCommandFilters_apply [OF walk] by (cases "CommandFilters proc") (simp_all add: initialVars_def)
  from f1 have e1: "\<forall>e \<in> set (v_events v1). \<exists>f c. e = CommandFilterCall f c"
    by (auto simp: initialVars_def)
  have all: "v_ret v \<noteq> None \<and> v_filterDisapproval v = v_filterDisapproval v1
      \<and> (\<forall>e \<in> set (v_events v).
            e \<in> set (v_events v1)
          \<or> e = LoggerInfo (''going to run '' @ v_logCommandContent v)
          \<or> (\<exists>t c. e = FeatureExecuteCall t c
                \<and> (if t = AESDecryptTrigger imp \<or> t = TwoFATrigger imp
                     then v_logCommandContent v = hiddenContent
                     else FindAndRemovePrefix (c\<lparr>Content := v_logCommandContent v\<rparr>) t = (True, c))))"
  proof (cases g)
    case True
    with body walk have "v = v1"
      by (simp add: processBody_def)
    with True f1 show ?thesis
      by simp
  next
    case False
    obtain trimmedCmd r where trim: "Command_Trim imp (v_cmd v1) = (trimmedCmd, r)"
      by (cases "Command_Trim imp (v_cmd v1)")
    show ?thesis
    proof (cases r)
      case (Some res)
      with body walk False trim
      have "v = v1\<lparr>v_cmd := trimmedCmd, v_ret := Some res, v_deferStats := True\<rparr>"
        by (simp add: processBody_def)
      then show ?thesis
        by simp
    next
      case None
      let ?v2 = "v1\<lparr>v_cmd := trimmedCmd, v_ret := None, v_deferStats := True\<rparr>"
      obtain g3 v3 where plt: "overridePLT proc ?v2 = (g3, v3)"
        by (cases "overridePLT proc ?v2")
      note f3 = overridePLT_frame [OF plt]
      show ?thesis
      proof (cases g3)
        case True
        with body walk False trim None plt have "v = v3"
          by (simp add: processBody_def)
        with True f3 show ?thesis
          by simp
      next
        case g3: False
        let ?v4 = "v3\<lparr>v_logCommandContent := Content (v_cmd v3)\<rparr>"
        show ?thesis
        proof (cases "Features proc")
          case None
          with body walk False trim \<open>r = None\<close> plt g3 show ?thesis
            by (simp add: processBody_def Let_def)
        next
          case (Some features)
          obtain m v5 where look: "lookupFeature imp (LookupByTrigger features) ?v4 = (m, v5)"
            by (cases "lookupFeature imp (LookupByTrigger features) ?v4")
          note f5 = lookupFeature_frame [OF look]
          have log4: "v_logCommandContent ?v4 = Content (v_cmd ?v4)" by simp
          show ?thesis
          proof (cases m)
            case None
            with body walk False trim \<open>r = None\<close> plt g3 Some look
            have "v = v5\<lparr>v_ret := Some (errorResult ErrBadPrefix)\<rparr>"
              by (simp add: processBody_def Let_def)
            with f5 f3 show ?thesis
              by simp
          next
            case (Some pf)
            obtain triggerPrefix feature where pf: "pf = (triggerPrefix, feature)" by (cases pf)
            from body walk False trim \<open>r = None\<close> plt g3 \<open>Features proc = Some features\<close> look Some pf
            have v: "v = v5\<lparr>v_events := v_events v5 @
                                      [LoggerInfo (''going to run '' @ v_logCommandContent v5),
                                       FeatureExecuteCall triggerPrefix (v_cmd v5)],
                                    v_deferLog := True,
                                    v_ret := Some (Execute feature (v_cmd v5))\<rparr>"
              by (simp add: processBody_def Let_def)
            from look Some pf have "lookupFeature imp (LookupByTrigger features) ?v4
                = (Some (triggerPrefix, feature), v5)" by simp
            note m5 = lookupFeature_match [OF this]
            from m5 have "FindAndRemovePrefix (v_cmd ?v4) triggerPrefix = (True, v_cmd v5)" by simp
            then have restore: "(v_cmd v5)\<lparr>Content := Content (v_cmd ?v4)\<rparr> = v_cmd ?v4"
              by (rule FindAndRemovePrefix_restore)
            have "if triggerPrefix = AESDecryptTrigger imp \<or> triggerPrefix = TwoFATrigger imp
                  then v_logCommandContent v5 = hiddenContent
                  else FindAndRemovePrefix ((v_cmd v5)\<lparr>Content := v_logCommandContent v5\<rparr>) triggerPrefix
                        = (True, v_cmd v5)"
              using m5 restore by (simp del: ProcessVars.simps Command.simps add: log4)
            with v f5 f3 show ?thesis
              by auto
          qed
        qed
      qed
    qed
  qed
  from all show "v_ret v \<noteq> None" by simp
  from all d1 show "v_filterDisapproval v = snd (applyCommandFilters (CommandFilters proc) cmd)" by simp
  from all e1 show "\<forall>e \<in> set (v_events v).
            (\<exists>f c. e = CommandFilterCall f c)
          \<or> e = LoggerInfo (''going to run '' @ v_logCommandContent v)
          \<or> (\<exists>t c. e = FeatureExecuteCall t c
                \<and> (if t = AESDecryptTrigger imp \<or> t = TwoFATrigger imp
                     then v_logCommandContent v = hiddenContent
                     else FindAndRemovePrefix (c\<lparr>Content := v_logCommandContent v\<rparr>) t = (True, c)))"
    by blast
qed

lemma processBody_no_panic:
  "Features proc \<noteq> None \<Longrightarrow> \<exists>v. processBody imp proc v0 = Inr v"
  by (auto simp: processBody_def Let_def split: prod.splits bool.splits option.splits)

lemma walkResultFilters_calls:
  "\<forall>e \<in> set (snd (walkResultFilters fs v ret)). \<exists>f r err. e = ResultFilterCall f r err"
proof (induction fs arbitrary: ret)
  case Nil
  show ?case by simp
next
  case (Cons f fs)
  obtain ret' e where t: "ResultFilter_Transform (overridden v f) ret = (ret', e)"
    by (cases "ResultFilter_Transform (overridden v f) ret")
  show ?case
  proof (cases e)
    case None
    with t Cons.IH [of ret'] show ?thesis
      by (auto split: prod.splits)
  next
    case (Some err)
    with t show ?thesis by simp
  qed
qed

lemma walkResultFilters_failed:
  "ResultFilterCall f r (Some err) \<in> set (snd (walkResultFilters fs v ret))
   \<Longrightarrow> Error (fst (walkResultFilters fs v ret)) = v_filterDisapproval v"
proof (induction fs arbitrary: ret)
  case Nil
  then show ?case by simp
next
  case (Cons f' fs)
  obtain ret' e where t: "ResultFilter_Transform (overridden v f') ret = (ret', e)"
    by (cases "ResultFilter_Transform (overridden v f') ret")
  show ?case
  proof (cases e)
    case None
    with t Cons.prems have "ResultFilterCall f r (Some err) \<in> set (snd (walkResultFilters fs v ret'))"
      by (auto split: prod.splits)
    from Cons.IH [OF this] t None show ?thesis
      by (auto split: prod.splits)
  next
    case (Some err')
    with t show ?thesis by simp
  qed
qed

lemma ResultFilter_Transform_Command:
  "\<forall>g. f = OtherResultFilter g \<longrightarrow> (\<forall>r. Command (fst (g r)) = Command r)
   \<Longrightarrow> Command (fst (ResultFilter_Transform f ret)) = Command ret"
  by (cases f)
     (auto simp: LintText_Transform_def NotifyViaEmail_Transform_def SayEmptyOutput_Transform_def)

lemma overridden_other:
  "overridden v f = OtherResultFilter g \<Longrightarrow> f = OtherResultFilter g"
  by (cases f) (auto simp: overridden_def split: if_splits)

lemma walkResultFilters_Command:
  "\<forall>f \<in> set fs. \<forall>g. f = OtherResultFilter g \<longrightarrow> (\<forall>r. Command (fst (g r)) = Command r)
   \<Longrightarrow> Command (fst (walkResultFilters fs v ret)) = Command ret"
proof (induction fs arbitrary: ret)
  case Nil
  show ?case by simp
next
  case (Cons f fs)
  obtain ret' e where t: "ResultFilter_Transform (overridden v f) ret = (ret', e)"
    by (cases "ResultFilter_Transform (overridden v f) ret")
  from Cons.prems have "\<forall>g. overridden v f = OtherResultFilter g \<longrightarrow> (\<forall>r. Command (fst (g r)) = Command r)"
    by (auto dest: overridden_other)
  from ResultFilter_Transform_Command [OF this, of ret] t
  have keep: "Command ret' = Command ret" by simp
  show ?case
  proof (cases e)
    case None
    from Cons.prems have "Command (fst (walkResultFilters fs v ret')) = Command ret'"
      by (intro Cons.IH) auto
    with t None keep show ?thesis
      by (auto split: prod.splits)
  next
    case (Some err)
    with t keep show ?thesis by simp
  qed
qed

lemma processBody_panic_events:
  assumes body: "processBody imp proc (initialVars cmd) = Inl v"
  shows "\<forall>e \<in> set (v_events v). \<exists>f c. e = CommandFilterCall f c"
proof -
  obtain g v1 where walk: "walkCommandFilters (CommandFilters proc) (initialVars cmd) = (g, v1)"
    by (cases "walkCommandFilters (CommandFilters proc) (initialVars cmd)")
  from walkCommandFilters_frame [OF walk]
  have e1: "\<forall>e \<in> set (v_events v1). \<exists>f c. e = CommandFilterCall f c"
    by (auto simp: initialVars_def)
  obtain trimmedCmd r where trim: "Command_Trim imp (v_cmd v1) = (trimmedCmd, r)"
    by (cases "Command_Trim imp (v_cmd v1)")
  let ?v2 = "v1\<lparr>v_cmd := trimmedCmd, v_ret := None, v_deferStats := True\<rparr>"
  obtain g3 v3 where plt: "overridePLT proc ?v2 = (g3, v3)"
    by (cases "overridePLT proc ?v2")
  note f3 = overridePLT_frame [OF plt]
  from body walk trim plt have "v_events v = v_events v3"
    by (auto simp: processBody_def Let_def split: bool.splits option.splits prod.splits)
  with f3 e1 show ?thesis by simp
qed

lemma finishProcess_returned:
  assumes "v_ret v = Some r0"
  shows "returned (finishProcess proc run v) =
           Some (fst (if run
                      then walkResultFilters (ResultFilters proc) v
                             (ResetCombinedText (r0\<lparr>Command := (v_cmd v)\<lparr>Content := v_logCommandContent v\<rparr>\<rparr>))
                      else (ResetCombinedText (r0\<lparr>Command := (v_cmd v)\<lparr>Content := v_logCommandContent v\<rparr>\<rparr>), [])))"
    and "logged (finishProcess proc run v) = v_logCommandContent v"
    and "trace (finishProcess proc run v) =
           v_events v
           @ snd (if run
                  then walkResultFilters (ResultFilters proc) v
                         (ResetCombinedText (r0\<lparr>Command := (v_cmd v)\<lparr>Content := v_logCommandContent v\<rparr>\<rparr>))
                  else (ResetCombinedText (r0\<lparr>Command := (v_cmd v)\<lparr>Content := v_logCommandContent v\<rparr>\<rparr>), []))
           @ (if v_deferLog v
              then [LoggerInfo (''finished '' @ v_logCommandContent v @
                      (if Error (fst (if run
                         then walkResultFilters (ResultFilters proc) v
                                (ResetCombinedText (r0\<lparr>Command := (v_cmd v)\<lparr>Content := v_logCommandContent v\<rparr>\<rparr>))
                         else (ResetCombinedText (r0\<lparr>Command := (v_cmd v)\<lparr>Content := v_logCommandContent v\<rparr>\<rparr>), []))) = None
                       then '' (ok? true)'' else '' (ok? false)''))]
              else [])
           @ (if v_deferStats v then [CommandStatsTrigger] else [])"
  using assms by (simp_all add: finishProcess_def Let_def)

lemma Process_cases:
  obtains
    (lockdown) "EmergencyLockDown imp"
      "Process imp proc cmd run =
         \<lparr>returned = Some (errorResult (ErrEmergencyLockDown imp)), processor = initialiseOnce proc,
          logged = [], trace = []\<rparr>"
  | (no_limiter) "rateLimit (initialiseOnce proc) = None"
      "Process imp proc cmd run = panicked (initialiseOnce proc) (initialVars cmd)"
  | (refused) proc' where
      "Process imp proc cmd run =
         \<lparr>returned = Some (errorResult ErrRateLimitExceeded), processor = proc',
          logged = [], trace = []\<rparr>"
  | (panic) proc' v where
      "CommandFilters proc' = CommandFilters proc" "ResultFilters proc' = ResultFilters proc"
      "Features proc' = Features proc"
      "processBody imp proc' (initialVars cmd) = Inl v"
      "Process imp proc cmd run = panicked proc' v"
  | (label) proc' v where
      "CommandFilters proc' = CommandFilters proc" "ResultFilters proc' = ResultFilters proc"
      "Features proc' = Features proc"
      "processBody imp proc' (initialVars cmd) = Inr v"
      "Process imp proc cmd run = finishProcess proc' run v"
proof (cases "EmergencyLockDown imp")
  case True
  then show ?thesis
    by (intro lockdown) (simp_all add: Process_def Let_def)
next
  case unlocked: False
  show ?thesis
  proof (cases "rateLimit (initialiseOnce proc)")
    case None
    with unlocked show ?thesis
      by (intro no_limiter) (simp_all add: Process_def Let_def)
  next
    case (Some limit)
    obtain admitted limit' where add: "RateLimit_Add limit ''instance'' = (admitted, limit')"
      by (cases "RateLimit_Add limit ''instance''")
    let ?proc = "(initialiseOnce proc)\<lparr>rateLimit := Some limit'\<rparr>"
    show ?thesis
    proof (cases admitted)
      case False
      with unlocked Some add show ?thesis
        by (intro refused [of ?proc]) (simp add: Process_def Let_def)
    next
      case True
      have conf: "CommandFilters ?proc = CommandFilters proc" "ResultFilters ?proc = ResultFilters proc"
        "Features ?proc = Features proc"
        by (simp_all add: initialiseOnce_configuration)
      show ?thesis
      proof (cases "processBody imp ?proc (initialVars cmd)")
        case (Inl v)
        with unlocked Some add True have "Process imp proc cmd run = panicked ?proc v"
          by (simp add: Process_def Let_def)
        with conf Inl show ?thesis by (intro panic [of ?proc v])
      next
        case (Inr v)
        with unlocked Some add True have "Process imp proc cmd run = finishProcess ?proc run v"
          by (simp add: Process_def Let_def)
        with conf Inr show ?thesis by (intro label [of ?proc v])
      qed
    qed
  qed
qed

text \<open>
  C6. If, in a call of \<open>Process\<close>, the \<open>Transform\<close> of a result filter returns an error,
  the call returns a result whose error is the one with which the walk through the command
  filters ended: the disapproval of a command filter, and nil when every command filter
  approved. The error of the result filter itself does not come back.
\<close>

theorem Process_result_filter_error_hidden:
  "ResultFilterCall f r (Some err) \<in> set (trace (Process imp proc cmd runResultFilters)) \<Longrightarrow>
   (\<exists>res. returned (Process imp proc cmd runResultFilters) = Some res
       \<and> Error res = snd (applyCommandFilters (CommandFilters proc) cmd))"
proof -
  assume failed: "ResultFilterCall f r (Some err) \<in> set (trace (Process imp proc cmd runResultFilters))"
  show ?thesis
  proof (cases rule: Process_cases [of imp proc cmd runResultFilters])
    case lockdown
    with failed show ?thesis by simp
  next
    case no_limiter
    with failed show ?thesis by (simp add: panicked_def initialVars_def)
  next
    case (refused proc')
    with failed show ?thesis by simp
  next
    case (panic proc' v)
    with failed processBody_panic_events [OF panic(4)] show ?thesis
      by (auto simp: panicked_def split: if_splits)
  next
    case (label proc' v)
    note at_label = processBody_label [OF label(4)]
    from at_label(1) obtain r0 where r0: "v_ret v = Some r0" by auto
    note fin = finishProcess_returned [OF r0, of proc' runResultFilters]
    let ?ret = "ResetCombinedText (r0\<lparr>Command := (v_cmd v)\<lparr>Content := v_logCommandContent v\<rparr>\<rparr>)"
    from fin(3) failed label(5) at_label(3)
    have in_walk: "runResultFilters
        \<and> ResultFilterCall f r (Some err) \<in> set (snd (walkResultFilters (ResultFilters proc') v ?ret))"
      by (auto split: if_splits)
    then have "ResultFilterCall f r (Some err) \<in> set (snd (walkResultFilters (ResultFilters proc') v ?ret))"
      by simp
    then have "Error (fst (walkResultFilters (ResultFilters proc') v ?ret)) = v_filterDisapproval v"
      by (rule walkResultFilters_failed)
    with in_walk fin(1) label(5) at_label(2) label(1) show ?thesis
      by simp
  qed
qed

text \<open>
  C2 as the code has it. For a processor whose feature set is assigned, whose once-only
  initialisation either has not run or has built the rate limiter, and whose result
  filters other than those of the package leave the command of the result alone,
  \<open>Process\<close> returns a result, and the content of the command in it is the last value of
  \<open>logCommandContent\<close>: the content that the lines of the log show, and, when a feature
  ran, the hidden-content marker for the two sensitive triggers and else the content from
  which the trigger was then removed for the feature, not what the feature was given.
\<close>

theorem Process_returns_logged_content:
  assumes features: "Features proc \<noteq> None"
    and limiter: "initOnce proc \<longrightarrow> rateLimit proc \<noteq> None"
    and untouched: "\<forall>f \<in> set (ResultFilters proc). \<forall>g. f = OtherResultFilter g
                      \<longrightarrow> (\<forall>r. Command (fst (g r)) = Command r)"
  shows "\<exists>res. returned (Process imp proc cmd runResultFilters) = Some res
      \<and> Content (Command res) = logged (Process imp proc cmd runResultFilters)
      \<and> (\<forall>e \<in> set (trace (Process imp proc cmd runResultFilters)).
            (\<forall>line. e = LoggerInfo line \<longrightarrow>
               line = ''going to run '' @ Content (Command res)
               \<or> line = ''finished '' @ Content (Command res) @ '' (ok? true)''
               \<or> line = ''finished '' @ Content (Command res) @ '' (ok? false)'')
          \<and> (\<forall>trigger given. e = FeatureExecuteCall trigger given \<longrightarrow>
               (if trigger = AESDecryptTrigger imp \<or> trigger = TwoFATrigger imp
                then Content (Command res) = hiddenContent
                else FindAndRemovePrefix (given\<lparr>Content := Content (Command res)\<rparr>) trigger
                       = (True, given))))"
proof (cases rule: Process_cases [of imp proc cmd runResultFilters])
  case lockdown
  then show ?thesis by (simp add: errorResult_def Result_zero_def Command_zero_def)
next
  case no_limiter
  with initialiseOnce_rateLimit [OF limiter] show ?thesis by simp
next
  case (refused proc')
  then show ?thesis by (simp add: errorResult_def Result_zero_def Command_zero_def)
next
  case (panic proc' v)
  with processBody_no_panic [of proc' imp "initialVars cmd"] features show ?thesis
    by auto
next
  case (label proc' v)
  note at_label = processBody_label [OF label(4)]
  from at_label(1) obtain r0 where r0: "v_ret v = Some r0" by auto
  note fin = finishProcess_returned [OF r0, of proc' runResultFilters]
  let ?ret = "ResetCombinedText (r0\<lparr>Command := (v_cmd v)\<lparr>Content := v_logCommandContent v\<rparr>\<rparr>)"
  let ?walked = "if runResultFilters then walkResultFilters (ResultFilters proc') v ?ret else (?ret, [])"
  have "Command (fst ?walked) = Command ?ret"
    using untouched label(2) by (simp add: walkResultFilters_Command)
  then have content: "Content (Command (fst ?walked)) = v_logCommandContent v"
    by (simp add: ResetCombinedText_def)
  have calls: "\<forall>e \<in> set (snd ?walked). \<exists>f r err. e = ResultFilterCall f r err"
    using walkResultFilters_calls [of "ResultFilters proc'" v ?ret] by simp
  have events: "\<forall>e \<in> set (trace (finishProcess proc' runResultFilters v)).
            (\<exists>f c. e = CommandFilterCall f c)
          \<or> e = LoggerInfo (''going to run '' @ v_logCommandContent v)
          \<or> (\<exists>t c. e = FeatureExecuteCall t c
                \<and> (if t = AESDecryptTrigger imp \<or> t = TwoFATrigger imp
                     then v_logCommandContent v = hiddenContent
                     else FindAndRemovePrefix (c\<lparr>Content := v_logCommandContent v\<rparr>) t = (True, c)))
          \<or> (\<exists>f r err. e = ResultFilterCall f r err)
          \<or> e = LoggerInfo (''finished '' @ v_logCommandContent v @ '' (ok? true)'')
          \<or> e = LoggerInfo (''finished '' @ v_logCommandContent v @ '' (ok? false)'')
          \<or> e = CommandStatsTrigger"
  proof
    fix e assume "e \<in> set (trace (finishProcess proc' runResultFilters v))"
    then consider "e \<in> set (v_events v)" | "e \<in> set (snd ?walked)"
      | "e = LoggerInfo (''finished '' @ v_logCommandContent v @ '' (ok? true)'')"
      | "e = LoggerInfo (''finished '' @ v_logCommandContent v @ '' (ok? false)'')"
      | "e = CommandStatsTrigger"
      unfolding fin(3) by (auto split: if_splits)
    then show "(\<exists>f c. e = CommandFilterCall f c)
          \<or> e = LoggerInfo (''going to run '' @ v_logCommandContent v)
          \<or> (\<exists>t c. e = FeatureExecuteCall t c
                \<and> (if t = AESDecryptTrigger imp \<or> t = TwoFATrigger imp
                     then v_logCommandContent v = hiddenContent
                     else FindAndRemovePrefix (c\<lparr>Content := v_logCommandContent v\<rparr>) t = (True, c)))
          \<or> (\<exists>f r err. e = ResultFilterCall f r err)
          \<or> e = LoggerInfo (''finished '' @ v_logCommandContent v @ '' (ok? true)'')
          \<or> e = LoggerInfo (''finished '' @ v_logCommandContent v @ '' (ok? false)'')
          \<or> e = CommandStatsTrigger"
    proof cases
      case 1
      with at_label(3) show ?thesis by blast
    next
      case 2
      with calls show ?thesis by blast
    qed auto
  qed
  define res where "res = fst ?walked"
  have ret: "returned (Process imp proc cmd runResultFilters) = Some res"
    and log: "logged (Process imp proc cmd runResultFilters) = v_logCommandContent v"
    using label(5) fin(1,2) by (simp_all add: res_def)
  from content have content': "v_logCommandContent v = Content (Command res)"
    by (simp add: res_def)
  note events' = events [unfolded content', folded label(5)]
  show ?thesis
  proof (intro exI conjI ballI allI impI)
    show "returned (Process imp proc cmd runResultFilters) = Some res" by (rule ret)
    show "Content (Command res) = logged (Process imp proc cmd runResultFilters)"
      using content' log by simp
  next
    fix e line
    assume mem: "e \<in> set (trace (Process imp proc cmd runResultFilters))" and e: "e = LoggerInfo line"
    from events' [rule_format, OF mem] show "line = ''going to run '' @ Content (Command res)
               \<or> line = ''finished '' @ Content (Command res) @ '' (ok? true)''
               \<or> line = ''finished '' @ Content (Command res) @ '' (ok? false)''"
      unfolding e by (elim disjE exE conjE) simp_all
  next
    fix e trigger given
    assume mem: "e \<in> set (trace (Process imp proc cmd runResultFilters))"
      and e: "e = FeatureExecuteCall trigger given"
    from events' [rule_format, OF mem] show "if trigger = AESDecryptTrigger imp \<or> trigger = TwoFATrigger imp
                then Content (Command res) = hiddenContent
                else FindAndRemovePrefix (given\<lparr>Content := Content (Command res)\<rparr>) trigger
                       = (True, given)"
      unfolding e by (elim disjE exE conjE) simp_all
  qed
qed

lemma overridePLT_success:
  assumes "FindAndRemovePrefix (v_cmd v) PrefixCommandPLT = (True, stripped)"
    and "FindStringSubmatch (Content stripped) = [whole, p, l, t, residual]"
    and "Atoi p = (P, None)" and "Atoi l = (L, None)" and "Atoi t = (T, None)"
    and "residual \<noteq> []"
    and "firstLintText (ResultFilters proc) = Some configured"
  shows "overridePLT proc v =
     (False, v\<lparr>v_cmd := stripped\<lparr>TimeoutSec := T, Content := residual\<rparr>,
               v_overrideLintText := configured\<lparr>BeginPosition := P, MaxLength := L\<rparr>,
               v_hasOverrideLintText := True\<rparr>)"
  using assms by (simp add: overridePLT_def Let_def)

lemma walkResultFilters_override:
  "v_hasOverrideLintText v \<Longrightarrow>
   \<forall>e \<in> set (snd (walkResultFilters fs v ret)).
     \<forall>applied result err. e = ResultFilterCall (LintTextFilter applied) result err
        \<longrightarrow> applied = v_overrideLintText v"
proof (induction fs arbitrary: ret)
  case Nil
  show ?case by simp
next
  case (Cons f fs)
  obtain ret' e where t: "ResultFilter_Transform (overridden v f) ret = (ret', e)"
    by (cases "ResultFilter_Transform (overridden v f) ret")
  have here: "overridden v f = LintTextFilter applied \<Longrightarrow> applied = v_overrideLintText v" for applied
    using Cons.prems by (cases f) (auto simp: overridden_def)
  show ?case
  proof (cases e)
    case None
    with t Cons.IH [OF Cons.prems, of ret'] here show ?thesis
      by (auto split: prod.splits)
  next
    case (Some err)
    with t here show ?thesis by auto
  qed
qed

lemma FindAndRemovePrefix_found:
  "FindAndRemovePrefix c p = (True, c') \<Longrightarrow>
   HasPrefix (TrimSpace (Content c)) p \<and> c' = c\<lparr>Content := drop (length p) (TrimSpace (Content c))\<rparr>"
  by (auto simp: FindAndRemovePrefix_def Let_def split: if_splits)

lemma processBody_PLT:
  assumes filters: "applyCommandFilters (CommandFilters proc) cmd = (filtered, None)"
    and trim: "Command_Trim imp filtered = (trimmedCmd, None)"
    and plt: "FindAndRemovePrefix trimmedCmd PrefixCommandPLT = (True, stripped)"
    and parse: "FindStringSubmatch (Content stripped) = [whole, p, l, t, residual]"
    and P: "Atoi p = (P, None)" and L: "Atoi l = (L, None)" and T: "Atoi t = (T, None)"
    and residual: "residual \<noteq> []"
    and lint: "firstLintText (ResultFilters proc) = Some configured"
    and body: "processBody imp proc (initialVars cmd) = Inl v
               \<or> processBody imp proc (initialVars cmd) = Inr v"
  shows "v_hasOverrideLintText v"
    and "v_overrideLintText v = configured\<lparr>BeginPosition := P, MaxLength := L\<rparr>"
    and "\<forall>e \<in> set (v_events v).
            (\<exists>f c. e = CommandFilterCall f c) \<or> (\<exists>line. e = LoggerInfo line)
          \<or> (\<exists>trigger given. e = FeatureExecuteCall trigger given
                \<and> TimeoutSec given = T
                \<and> HasPrefix (TrimSpace residual) trigger
                \<and> Content given = drop (length trigger) (TrimSpace residual))"
proof -
  obtain g v1 where walk: "walkCommandFilters (CommandFilters proc) (initialVars cmd) = (g, v1)"
    by (cases "walkCommandFilters (CommandFilters proc) (initialVars cmd)")
  note f1 = walkCommandFilters_frame [OF walk]
  from walkCommandFilters_apply [OF walk] filters
  have g: "\<not> g" and c1: "v_cmd v1 = filtered"
    by (simp_all add: initialVars_def)
  from f1 have e1: "\<forall>e \<in> set (v_events v1). \<exists>f c. e = CommandFilterCall f c"
    by (auto simp: initialVars_def)
  let ?v2 = "v1\<lparr>v_cmd := trimmedCmd, v_ret := None, v_deferStats := True\<rparr>"
  let ?v3 = "?v2\<lparr>v_cmd := stripped\<lparr>TimeoutSec := T, Content := residual\<rparr>,
               v_overrideLintText := configured\<lparr>BeginPosition := P, MaxLength := L\<rparr>,
               v_hasOverrideLintText := True\<rparr>"
  have o: "overridePLT proc ?v2 = (False, ?v3)"
    using plt parse P L T residual lint by (intro overridePLT_success) simp_all
  let ?v4 = "?v3\<lparr>v_logCommandContent := Content (v_cmd ?v3)\<rparr>"
  have all: "v_hasOverrideLintText v
      \<and> v_overrideLintText v = configured\<lparr>BeginPosition := P, MaxLength := L\<rparr>
      \<and> (\<forall>e \<in> set (v_events v).
            e \<in> set (v_events v1) \<or> (\<exists>line. e = LoggerInfo line)
          \<or> (\<exists>trigger given. e = FeatureExecuteCall trigger given
                \<and> TimeoutSec given = T
                \<and> HasPrefix (TrimSpace residual) trigger
                \<and> Content given = drop (length trigger) (TrimSpace residual)))"
  proof (cases "Features proc")
    case None
    with body walk g c1 trim o have "v = ?v4"
      by (simp add: processBody_def Let_def)
    then show ?thesis by simp
  next
    case (Some features)
    obtain m v5 where look: "lookupFeature imp (LookupByTrigger features) ?v4 = (m, v5)"
      by (cases "lookupFeature imp (LookupByTrigger features) ?v4")
    note f5 = lookupFeature_frame [OF look]
    show ?thesis
    proof (cases m)
      case None
      with body walk g c1 trim o Some look
      have "v = v5\<lparr>v_ret := Some (errorResult ErrBadPrefix)\<rparr>"
        by (simp add: processBody_def Let_def)
      with f5 show ?thesis by simp
    next
      case (Some pf)
      obtain triggerPrefix feature where pf: "pf = (triggerPrefix, feature)" by (cases pf)
      from body walk g c1 trim o \<open>Features proc = Some features\<close> look Some pf
      have v: "v = v5\<lparr>v_events := v_events v5 @
                                [LoggerInfo (''going to run '' @ v_logCommandContent v5),
                                 FeatureExecuteCall triggerPrefix (v_cmd v5)],
                              v_deferLog := True,
                              v_ret := Some (Execute feature (v_cmd v5))\<rparr>"
        by (simp add: processBody_def Let_def)
      from look Some pf have "lookupFeature imp (LookupByTrigger features) ?v4
                = (Some (triggerPrefix, feature), v5)" by simp
      from lookupFeature_match [OF this]
      have "FindAndRemovePrefix (stripped\<lparr>TimeoutSec := T, Content := residual\<rparr>) triggerPrefix
              = (True, v_cmd v5)"
        by simp
      from FindAndRemovePrefix_found [OF this]
      have "TimeoutSec (v_cmd v5) = T \<and> HasPrefix (TrimSpace residual) triggerPrefix
            \<and> Content (v_cmd v5) = drop (length triggerPrefix) (TrimSpace residual)"
        by simp
      with v f5 show ?thesis by auto
    qed
  qed
  from all show "v_hasOverrideLintText v" by simp
  from all show "v_overrideLintText v = configured\<lparr>BeginPosition := P, MaxLength := L\<rparr>" by simp
  from all e1 show "\<forall>e \<in> set (v_events v).
            (\<exists>f c. e = CommandFilterCall f c) \<or> (\<exists>line. e = LoggerInfo line)
          \<or> (\<exists>trigger given. e = FeatureExecuteCall trigger given
                \<and> TimeoutSec given = T
                \<and> HasPrefix (TrimSpace residual) trigger
                \<and> Content given = drop (length trigger) (TrimSpace residual))"
    by blast
qed

text \<open>
  C3 as the code has it. Let the command filters approve, let the trimmed command begin
  with \<open>.plt\<close>, let the regular expression match what follows with the groups \<open>p\<close>,
  \<open>l\<close>, \<open>t\<close> and a non-empty residual command, let \<open>strconv.Atoi\<close> read them as \<open>P\<close>,
  \<open>L\<close> and \<open>T\<close>, and let a \<open>LintText\<close> be among the result filters. Then every
  \<open>LintText\<close> that the call applies to the result is the first configured one with
  \<open>BeginPosition = P\<close> and \<open>MaxLength = L\<close>; and every call of a feature's \<open>Execute\<close> is
  given \<open>TimeoutSec = T\<close> and, as content, the trimmed residual command behind the trigger
  of the feature: what \<open>FindAndRemovePrefix\<close> leaves of it, not the residual command itself.
\<close>

theorem Process_PLT_override:
  assumes filters: "applyCommandFilters (CommandFilters proc) cmd = (filtered, None)"
    and trim: "Command_Trim imp filtered = (trimmedCmd, None)"
    and plt: "FindAndRemovePrefix trimmedCmd PrefixCommandPLT = (True, stripped)"
    and parse: "FindStringSubmatch (Content stripped) = [whole, p, l, t, residual]"
    and P: "Atoi p = (P, None)" and L: "Atoi l = (L, None)" and T: "Atoi t = (T, None)"
    and residual: "residual \<noteq> []"
    and lint: "firstLintText (ResultFilters proc) = Some configured"
  shows "\<forall>e \<in> set (trace (Process imp proc cmd runResultFilters)).
           (\<forall>applied result err. e = ResultFilterCall (LintTextFilter applied) result err
              \<longrightarrow> applied = configured\<lparr>BeginPosition := P, MaxLength := L\<rparr>)
         \<and> (\<forall>trigger given. e = FeatureExecuteCall trigger given
              \<longrightarrow> TimeoutSec given = T
                  \<and> HasPrefix (TrimSpace residual) trigger
                  \<and> Content given = drop (length trigger) (TrimSpace residual))"
proof (cases rule: Process_cases [of imp proc cmd runResultFilters])
  case lockdown
  then show ?thesis by simp
next
  case no_limiter
  then show ?thesis by (simp add: panicked_def initialVars_def)
next
  case (refused proc')
  then show ?thesis by simp
next
  case (panic proc' v)
  from panic(1,2) filters lint
  have "applyCommandFilters (CommandFilters proc') cmd = (filtered, None)"
    "firstLintText (ResultFilters proc') = Some configured" by simp_all
  from processBody_PLT(3) [OF this(1) trim plt parse P L T residual this(2), of v] panic(4)
  have "\<forall>e \<in> set (v_events v).
            (\<exists>f c. e = CommandFilterCall f c) \<or> (\<exists>line. e = LoggerInfo line)
          \<or> (\<exists>trigger given. e = FeatureExecuteCall trigger given
                \<and> TimeoutSec given = T
                \<and> HasPrefix (TrimSpace residual) trigger
                \<and> Content given = drop (length trigger) (TrimSpace residual))"
    by simp
  with panic(5) show ?thesis
    by (auto simp: panicked_def split: if_splits)
next
  case (label proc' v)
  from label(1,2) filters lint
  have pre: "applyCommandFilters (CommandFilters proc') cmd = (filtered, None)"
    "firstLintText (ResultFilters proc') = Some configured" by simp_all
  have body: "processBody imp proc' (initialVars cmd) = Inl v
               \<or> processBody imp proc' (initialVars cmd) = Inr v"
    using label(4) by simp
  note at_label = processBody_PLT [OF pre(1) trim plt parse P L T residual pre(2) body]
  from processBody_label(1) [OF label(4)] obtain r0 where r0: "v_ret v = Some r0" by auto
  note fin = finishProcess_returned [OF r0, of proc' runResultFilters]
  let ?ret = "ResetCombinedText (r0\<lparr>Command := (v_cmd v)\<lparr>Content := v_logCommandContent v\<rparr>\<rparr>)"
  let ?walked = "if runResultFilters then walkResultFilters (ResultFilters proc') v ?ret else (?ret, [])"
  have calls: "\<forall>e \<in> set (snd ?walked). (\<exists>f r err. e = ResultFilterCall f r err)
      \<and> (\<forall>applied result err. e = ResultFilterCall (LintTextFilter applied) result err
              \<longrightarrow> applied = configured\<lparr>BeginPosition := P, MaxLength := L\<rparr>)"
    using walkResultFilters_calls [of "ResultFilters proc'" v ?ret]
      walkResultFilters_override [OF at_label(1), of "ResultFilters proc'" ?ret] at_label(2)
    by auto
  show ?thesis
  proof (intro ballI)
    fix e assume "e \<in> set (trace (Process imp proc cmd runResultFilters))"
    then consider "e \<in> set (v_events v)" | "e \<in> set (snd ?walked)"
      | "\<exists>line. e = LoggerInfo line" | "e = CommandStatsTrigger"
      unfolding label(5) fin(3) by (auto split: if_splits)
    then show "(\<forall>applied result err. e = ResultFilterCall (LintTextFilter applied) result err
              \<longrightarrow> applied = configured\<lparr>BeginPosition := P, MaxLength := L\<rparr>)
         \<and> (\<forall>trigger given. e = FeatureExecuteCall trigger given
              \<longrightarrow> TimeoutSec given = T
                  \<and> HasPrefix (TrimSpace residual) trigger
                  \<and> Content given = drop (length trigger) (TrimSpace residual))"
    proof cases
      case 1
      with at_label(3) show ?thesis by fastforce
    next
      case 2
      with calls show ?thesis by fastforce
    qed auto
  qed
qed

section \<open>The properties at work on the test processor\<close>

text \<open>\<open>finishProcess\<close> with the walk through the result filters taken once.\<close>

lemma finishProcess_walk:
  "finishProcess proc runResultFilters v =
     (case v_ret v of
        None \<Rightarrow> panicked proc v
      | Some r \<Rightarrow>
          (case (if runResultFilters
                 then walkResultFilters (ResultFilters proc) v
                        (ResetCombinedText (r\<lparr>Command := (v_cmd v)\<lparr>Content := v_logCommandContent v\<rparr>\<rparr>))
                 else (ResetCombinedText (r\<lparr>Command := (v_cmd v)\<lparr>Content := v_logCommandContent v\<rparr>\<rparr>), []))
           of (final, calls) \<Rightarrow>
             \<lparr>returned = Some final, processor = proc, logged = v_logCommandContent v,
              trace = v_events v @ calls
                @ (if v_deferLog v
                   then [LoggerInfo (''finished '' @ v_logCommandContent v @ '' (ok? ''
                           @ (if Error final = None then ''true'' else ''false'') @ '')'')]
                   else [])
                @ (if v_deferStats v then [CommandStatsTrigger] else [])\<rparr>))"
  by (simp add: finishProcess_def Let_def split: option.split prod.split)

lemmas process_eval =
  Process_def initialiseOnce_def MaxCmdPerSecHardLimit_def RateLimit_Initialise_def RateLimit_Add_def
  processBody_def finishProcess_walk panicked_def initialVars_def errorResult_def
  Result_zero_def Command_zero_def LintText_zero_def Command_Trim_def FindAndRemovePrefix_def
  HasPrefix_def overridePLT_def overridden_def PrefixCommandPLT_def ResetCombinedText_def
  PINAndShortcuts_Transform_def TranslateSequences_Transform_def Lines_def ConstantTimeCompare_def
  Replace_def LintText_Transform_def lintText_def trimLines_def cutLeading_def cutTrailing_def
  NotifyViaEmail_Transform_def SayEmptyOutput_Transform_def EmptyOutputText_def hiddenContent_def
  Atoi_def isDigit_def
  GetTestCommandProcessor_def TestCommandProcessorPIN_def CommandProcessor_zero_def
  exampleImports_def exampleFeatures_def failingResultFilter_def exampleCommand_def
  Let_def string_eval

theorem Process_EmergencyLockDown_witness:
  "returned (Process (exampleImports\<lparr>EmergencyLockDown := True\<rparr>)
      (GetTestCommandProcessor exampleFeatures) (exampleCommand ''verysecret.s echo hello'') True)
   = Some (errorResult (errors_New ''LOCKED DOWN''))
   \<and> trace (Process (exampleImports\<lparr>EmergencyLockDown := True\<rparr>)
      (GetTestCommandProcessor exampleFeatures) (exampleCommand ''verysecret.s echo hello'') True) = []"
proof -
  have locked: "EmergencyLockDown (exampleImports\<lparr>EmergencyLockDown := True\<rparr>)" by simp
  from Process_EmergencyLockDown [OF locked] show ?thesis
    by (simp add: exampleImports_def)
qed

theorem Process_initialises_rate_limit_witness:
  "\<exists>limit. rateLimit (processor (Process exampleImports
        ((GetTestCommandProcessor exampleFeatures)\<lparr>MaxCmdPerSec := 25\<rparr>)
        (exampleCommand ''verysecret.s echo hello'') True)) = Some limit
      \<and> UnitSecs limit = 1 \<and> MaxCount limit = 25"
proof -
  let ?proc = "(GetTestCommandProcessor exampleFeatures)\<lparr>MaxCmdPerSec := 25\<rparr>"
  have fresh: "\<not> initOnce ?proc" "rateLimit ?proc = None"
    by (simp_all add: GetTestCommandProcessor_def)
  have "MaxCmdPerSec ?proc = 25" by simp
  with Process_initialises_rate_limit [OF fresh, of exampleImports
      "exampleCommand ''verysecret.s echo hello''" True]
  show ?thesis by auto
qed

theorem MaxCmdPerSec_below_one_counterexample:
  "MaxCmdPerSec (GetTestCommandProcessor exampleFeatures) < 1
   \<and> (\<exists>limit. rateLimit (processor (Process exampleImports (GetTestCommandProcessor exampleFeatures)
                 (exampleCommand ''verysecret.s echo hello'') True)) = Some limit
         \<and> MaxCount limit = 1000 \<and> MaxCount limit \<noteq> 1)"
  by (simp add: process_eval)

theorem Process_result_filter_error_hidden_witness:
  "\<exists>res. returned (Process exampleImports
        ((GetTestCommandProcessor exampleFeatures)\<lparr>ResultFilters := [failingResultFilter]\<rparr>)
        (exampleCommand ''wrongpin.s echo hello'') True) = Some res
      \<and> Error res = Some ErrPINAndShortcutNotFound"
proof -
  let ?proc = "(GetTestCommandProcessor exampleFeatures)\<lparr>ResultFilters := [failingResultFilter]\<rparr>"
  let ?cmd = "exampleCommand ''wrongpin.s echo hello''"
  have failed: "ResultFilterCall failingResultFilter
       \<lparr>Command = exampleCommand [], Error = Some ErrPINAndShortcutNotFound, Output = [],
        CombinedOutput = ''failed to match PIN/shortcut|''\<rparr>
       (Some (errors_New ''no route to mail host''))
     \<in> set (trace (Process exampleImports ?proc ?cmd True))"
    by (simp add: process_eval)
  have disapproval: "snd (applyCommandFilters (CommandFilters ?proc) ?cmd) = Some ErrPINAndShortcutNotFound"
    by (simp add: process_eval)
  from Process_result_filter_error_hidden [OF failed] disapproval show ?thesis
    by simp
qed

theorem Process_returns_logged_content_witness:
  "\<exists>res. returned (Process exampleImports (GetTestCommandProcessor exampleFeatures)
        (exampleCommand ''verysecret.s echo hello'') True) = Some res
      \<and> Content (Command res) = ''.s echo hello''"
proof -
  let ?proc = "GetTestCommandProcessor exampleFeatures"
  let ?cmd = "exampleCommand ''verysecret.s echo hello''"
  have features: "Features ?proc \<noteq> None"
    and limiter: "initOnce ?proc \<longrightarrow> rateLimit ?proc \<noteq> None"
    and untouched: "\<forall>f \<in> set (ResultFilters ?proc). \<forall>g. f = OtherResultFilter g
                      \<longrightarrow> (\<forall>r. Command (fst (g r)) = Command r)"
    by (simp_all add: GetTestCommandProcessor_def)
  have log: "logged (Process exampleImports ?proc ?cmd True) = ''.s echo hello''"
    by (simp add: process_eval)
  from Process_returns_logged_content [OF features limiter untouched, of exampleImports ?cmd True]
  obtain res where "returned (Process exampleImports ?proc ?cmd True) = Some res"
    and "Content (Command res) = logged (Process exampleImports ?proc ?cmd True)"
    by blast
  with log show ?thesis by simp
qed

theorem Process_zero_processor_counterexample:
  "returned (Process exampleImports CommandProcessor_zero (exampleCommand ''hello'') True) = None"
  by (simp add: process_eval)

text \<open>The run of the test processor on a command with a \<open>.plt\<close> override.\<close>

lemma PLT_example_parse:
  "FindStringSubmatch '' 2 5 30 .s echo helloworld''
     = ['' 2 5 30 .s echo helloworld'', ''2'', ''5'', ''30'', '' .s echo helloworld'']"
  by (simp add: FindStringSubmatch_def isDigit_def byte_def newline_def Let_def)

lemma PLT_example_trace:
  "trace (Process exampleImports (GetTestCommandProcessor exampleFeatures)
            (exampleCommand ''verysecret.plt 2 5 30 .s echo helloworld'') True)
   = [CommandFilterCall (PINAndShortcutsFilter \<lparr>PIN = ''verysecret'', Shortcuts = []\<rparr>)
        \<lparr>DaemonName = ''httpd'', TimeoutSec = 10,
         Content = ''verysecret.plt 2 5 30 .s echo helloworld''\<rparr>,
      CommandFilterCall (TranslateSequencesFilter \<lparr>Sequences = [[''alpha'', ''beta'']]\<rparr>)
        \<lparr>DaemonName = ''httpd'', TimeoutSec = 10, Content = ''.plt 2 5 30 .s echo helloworld''\<rparr>,
      LoggerInfo ''going to run  .s echo helloworld'',
      FeatureExecuteCall ''.s''
        \<lparr>DaemonName = ''httpd'', TimeoutSec = 30, Content = '' echo helloworld''\<rparr>,
      ResultFilterCall
        (LintTextFilter (LintText_zero\<lparr>TrimSpaces := True, BeginPosition := 2, MaxLength := 5\<rparr>))
        \<lparr>Command = \<lparr>DaemonName = ''httpd'', TimeoutSec = 30, Content = '' .s echo helloworld''\<rparr>,
         Error = None, Output = '' echo helloworld'', CombinedOutput = '' echo helloworld''\<rparr>
        None,
      ResultFilterCall SayEmptyOutputFilter
        \<lparr>Command = \<lparr>DaemonName = ''httpd'', TimeoutSec = 30, Content = '' .s echo helloworld''\<rparr>,
         Error = None, Output = '' echo helloworld'', CombinedOutput = ''ho he''\<rparr>
        None,
      ResultFilterCall (NotifyViaEmailFilter \<lparr>Recipients = [], MailClient_IsConfigured = False\<rparr>)
        \<lparr>Command = \<lparr>DaemonName = ''httpd'', TimeoutSec = 30, Content = '' .s echo helloworld''\<rparr>,
         Error = None, Output = '' echo helloworld'', CombinedOutput = ''ho he''\<rparr>
        None,
      LoggerInfo ''finished  .s echo helloworld (ok? true)'',
      CommandStatsTrigger]"
  by (simp add: process_eval PLT_example_parse)

theorem Process_PLT_override_witness:
  "\<exists>given result.
      FeatureExecuteCall ''.s'' given
        \<in> set (trace (Process exampleImports (GetTestCommandProcessor exampleFeatures)
                  (exampleCommand ''verysecret.plt 2 5 30 .s echo helloworld'') True))
    \<and> TimeoutSec given = 30 \<and> Content given = '' echo helloworld''
    \<and> ResultFilterCall (LintTextFilter (LintText_zero\<lparr>TrimSpaces := True, BeginPosition := 2, MaxLength := 5\<rparr>))
         result None
        \<in> set (trace (Process exampleImports (GetTestCommandProcessor exampleFeatures)
                  (exampleCommand ''verysecret.plt 2 5 30 .s echo helloworld'') True))"
proof -
  let ?proc = "GetTestCommandProcessor exampleFeatures"
  let ?cmd = "exampleCommand ''verysecret.plt 2 5 30 .s echo helloworld''"
  have filters: "applyCommandFilters (CommandFilters ?proc) ?cmd
                   = (exampleCommand ''.plt 2 5 30 .s echo helloworld'', None)"
    by (simp add: process_eval)
  have trim: "Command_Trim exampleImports (exampleCommand ''.plt 2 5 30 .s echo helloworld'')
                   = (exampleCommand ''.plt 2 5 30 .s echo helloworld'', None)"
    by (simp add: process_eval)
  have plt: "FindAndRemovePrefix (exampleCommand ''.plt 2 5 30 .s echo helloworld'') PrefixCommandPLT
                   = (True, exampleCommand '' 2 5 30 .s echo helloworld'')"
    by (simp add: process_eval)
  have parse: "FindStringSubmatch (Content (exampleCommand '' 2 5 30 .s echo helloworld''))
                   = ['' 2 5 30 .s echo helloworld'', ''2'', ''5'', ''30'', '' .s echo helloworld'']"
    by (simp add: exampleCommand_def PLT_example_parse)
  have numbers: "Atoi ''2'' = (2, None)" "Atoi ''5'' = (5, None)" "Atoi ''30'' = (30, None)"
    by (simp_all add: process_eval)
  have residual: "'' .s echo helloworld'' \<noteq> []" by simp
  have lint: "firstLintText (ResultFilters ?proc) = Some (LintText_zero\<lparr>TrimSpaces := True, MaxLength := 35\<rparr>)"
    by (simp add: GetTestCommandProcessor_def)
  note override = Process_PLT_override [OF filters trim plt parse numbers residual lint,
      of True, rule_format]
  obtain given where executed: "FeatureExecuteCall ''.s'' given
        \<in> set (trace (Process exampleImports ?proc ?cmd True))"
    by (rule that [of "\<lparr>DaemonName = ''httpd'', TimeoutSec = 30, Content = '' echo helloworld''\<rparr>"])
       (simp add: PLT_example_trace)
  obtain applied result where linted: "ResultFilterCall (LintTextFilter applied) result None
        \<in> set (trace (Process exampleImports ?proc ?cmd True))"
    by (rule that [of "LintText_zero\<lparr>TrimSpaces := True, BeginPosition := 2, MaxLength := 5\<rparr>"
                      "\<lparr>Command = \<lparr>DaemonName = ''httpd'', TimeoutSec = 30,
                                   Content = '' .s echo helloworld''\<rparr>,
                        Error = None, Output = '' echo helloworld'',
                        CombinedOutput = '' echo helloworld''\<rparr>"])
       (simp add: PLT_example_trace)
  from override [OF executed] have "TimeoutSec given = 30"
    "Content given = drop (length ''.s'') (TrimSpace '' .s echo helloworld'')"
    by simp_all
  then have given: "TimeoutSec given = 30" "Content given = '' echo helloworld''"
    by (simp_all add: string_eval)
  from override [OF linted] have "applied = LintText_zero\<lparr>TrimSpaces := True, MaxLength := 35\<rparr>
      \<lparr>BeginPosition := 2, MaxLength := 5\<rparr>"
    by simp
  then have "applied = LintText_zero\<lparr>TrimSpaces := True, BeginPosition := 2, MaxLength := 5\<rparr>"
    by (simp add: LintText_zero_def)
  with executed linted given show ?thesis by blast
qed

theorem Execute_content_counterexample:
  "FindStringSubmatch '' 2 5 30 .s echo helloworld''
     = ['' 2 5 30 .s echo helloworld'', ''2'', ''5'', ''30'', '' .s echo helloworld'']
   \<and> (\<exists>given. FeatureExecuteCall ''.s'' given
          \<in> set (trace (Process exampleImports (GetTestCommandProcessor exampleFeatures)
                    (exampleCommand ''verysecret.plt 2 5 30 .s echo helloworld'') True))
        \<and> Content given = '' echo helloworld''
        \<and> Content given \<noteq> '' .s echo helloworld'')"
proof -
  have "FeatureExecuteCall ''.s'' \<lparr>DaemonName = ''httpd'', TimeoutSec = 30, Content = '' echo helloworld''\<rparr>
          \<in> set (trace (Process exampleImports (GetTestCommandProcessor exampleFeatures)
                    (exampleCommand ''verysecret.plt 2 5 30 .s echo helloworld'') True))"
    by (simp add: PLT_example_trace)
  with PLT_example_parse show ?thesis by force
qed

end
